theory Spec2Isabelle
  imports Complex_Main "HOL-Library.Multiset" "HOL-Library.Sublist" "HOL-Library.Log_Nat"
begin

section \<open>Domain value objects (word_puzzle/domain/value_objects.py)\<close>

text \<open>
  Python integers are unbounded, so rows, columns, deltas and the grid size are \<open>int\<close>.
  A Python string is a \<open>string\<close>; a grid cell is a Python string too: the empty string
  is the "empty" sentinel, a written cell holds a string of one character.
\<close>

record position =
  row :: int
  col :: int

record direction =
  row_delta :: int
  col_delta :: int
  name :: string

datatype direction_type = HORIZONTAL | VERTICAL | DIAGONAL

record word =
  word_value :: string

text \<open>The exceptions the modelled code can raise.\<close>

datatype error = ValueError | IndexError

text \<open>
  \<open>str.lower\<close> and \<open>str.upper\<close>, on the ASCII range (the direction names and the
  alphabet of the catalog are ASCII).
\<close>

definition lower_char :: "char \<Rightarrow> char" where
  "lower_char c =
     (let n = (of_char c :: nat) in if 65 \<le> n \<and> n \<le> 90 then char_of (n + 32) else c)"

definition upper_char :: "char \<Rightarrow> char" where
  "upper_char c =
     (let n = (of_char c :: nat) in if 97 \<le> n \<and> n \<le> 122 then char_of (n - 32) else c)"

definition lower :: "string \<Rightarrow> string" where
  "lower s = map lower_char s"

definition upper :: "string \<Rightarrow> string" where
  "upper s = map upper_char s"

text \<open>\<open>Word.__post_init__\<close>: an empty value raises, otherwise the value is uppercased.\<close>

definition Word :: "string \<Rightarrow> error + word" where
  "Word v = (if v = [] then Inl ValueError else Inr \<lparr>word_value = upper v\<rparr>)"

text \<open>\<open>'horizontal' in self.name.lower()\<close> and its two siblings.\<close>

definition is_horizontal :: "direction \<Rightarrow> bool" where
  "is_horizontal d = sublist ''horizontal'' (lower (name d))"

definition is_vertical :: "direction \<Rightarrow> bool" where
  "is_vertical d = sublist ''vertical'' (lower (name d))"

definition is_diagonal :: "direction \<Rightarrow> bool" where
  "is_diagonal d = sublist ''diagonal'' (lower (name d))"

definition HORIZONTAL_RIGHT :: direction where
  "HORIZONTAL_RIGHT = \<lparr>row_delta = 0, col_delta = 1, name = ''horizontal_right''\<rparr>"

definition HORIZONTAL_LEFT :: direction where
  "HORIZONTAL_LEFT = \<lparr>row_delta = 0, col_delta = -1, name = ''horizontal_left''\<rparr>"

definition VERTICAL_DOWN :: direction where
  "VERTICAL_DOWN = \<lparr>row_delta = 1, col_delta = 0, name = ''vertical_down''\<rparr>"

definition VERTICAL_UP :: direction where
  "VERTICAL_UP = \<lparr>row_delta = -1, col_delta = 0, name = ''vertical_up''\<rparr>"

definition DIAGONAL_DOWN_RIGHT :: direction where
  "DIAGONAL_DOWN_RIGHT = \<lparr>row_delta = 1, col_delta = 1, name = ''diagonal_down_right''\<rparr>"

definition DIAGONAL_DOWN_LEFT :: direction where
  "DIAGONAL_DOWN_LEFT = \<lparr>row_delta = 1, col_delta = -1, name = ''diagonal_down_left''\<rparr>"

definition DIAGONAL_UP_RIGHT :: direction where
  "DIAGONAL_UP_RIGHT = \<lparr>row_delta = -1, col_delta = 1, name = ''diagonal_up_right''\<rparr>"

definition DIAGONAL_UP_LEFT :: direction where
  "DIAGONAL_UP_LEFT = \<lparr>row_delta = -1, col_delta = -1, name = ''diagonal_up_left''\<rparr>"

definition horizontal :: "direction list" where
  "horizontal = [HORIZONTAL_RIGHT, HORIZONTAL_LEFT]"

definition vertical :: "direction list" where
  "vertical = [VERTICAL_DOWN, VERTICAL_UP]"

definition diagonal :: "direction list" where
  "diagonal = [DIAGONAL_DOWN_RIGHT, DIAGONAL_DOWN_LEFT, DIAGONAL_UP_RIGHT, DIAGONAL_UP_LEFT]"

section \<open>Domain entities (word_puzzle/domain/entities.py)\<close>

record word_placement =
  word :: word
  start_position :: position
  direction :: direction
  positions :: "position list"

record puzzle =
  grid_size :: int
  words :: "word list"
  placements :: "word_placement list"
  grid :: "string list list"

text \<open>\<open>range(n)\<close> for a Python integer \<open>n\<close>: empty when \<open>n \<le> 0\<close>.\<close>

definition range :: "int \<Rightarrow> int list" where
  "range n = map int [0..<nat n]"

text \<open>The cell of the path of a word at index \<open>i\<close>: \<open>start + i * delta\<close>.\<close>

definition target :: "position \<Rightarrow> direction \<Rightarrow> int \<Rightarrow> position" where
  "target start d i =
     \<lparr>row = row start + i * row_delta d, col = col start + i * col_delta d\<rparr>"

text \<open>\<open>WordPlacement._calculate_positions\<close> and the three-argument constructor.\<close>

definition calculate_positions :: "word \<Rightarrow> position \<Rightarrow> direction \<Rightarrow> position list" where
  "calculate_positions w start d = map (target start d) (range (int (length (word_value w))))"

definition WordPlacement :: "word \<Rightarrow> position \<Rightarrow> direction \<Rightarrow> word_placement" where
  "WordPlacement w start d =
     \<lparr>word = w, start_position = start, direction = d,
      positions = calculate_positions w start d\<rparr>"

text \<open>\<open>WordPlacement.get_character_at\<close>: \<open>self.word.value[index]\<close>, for an index from
  \<open>enumerate\<close> (never negative).\<close>

definition get_character_at :: "word_placement \<Rightarrow> nat \<Rightarrow> error + string" where
  "get_character_at pl i =
     (if i < length (word_value (word pl)) then Inr [word_value (word pl) ! i]
      else Inl IndexError)"

definition empty_grid :: "int \<Rightarrow> string list list" where
  "empty_grid n = map (\<lambda>_. map (\<lambda>_. []) (range n)) (range n)"

text \<open>\<open>Puzzle(grid_size=n, words=ws)\<close>: \<open>__post_init__\<close> builds the empty grid.\<close>

definition Puzzle :: "int \<Rightarrow> word list \<Rightarrow> puzzle" where
  "Puzzle n ws = \<lparr>grid_size = n, words = ws, placements = [], grid = empty_grid n\<rparr>"

definition is_valid_position :: "puzzle \<Rightarrow> position \<Rightarrow> bool" where
  "is_valid_position p pos =
     (0 \<le> row pos \<and> row pos < grid_size p \<and> 0 \<le> col pos \<and> col pos < grid_size p)"

text \<open>
  \<open>self.grid[r][c]\<close> for non-negative indices: a read or write outside the nested list
  raises IndexError (it can only happen when the grid is not a grid_size x grid_size matrix).
\<close>

definition get_cell :: "puzzle \<Rightarrow> position \<Rightarrow> error + string" where
  "get_cell p pos =
     (if \<not> is_valid_position p pos then Inl ValueError
      else if nat (row pos) < length (grid p)
              \<and> nat (col pos) < length (grid p ! nat (row pos))
           then Inr (grid p ! nat (row pos) ! nat (col pos))
           else Inl IndexError)"

definition set_cell :: "puzzle \<Rightarrow> position \<Rightarrow> string \<Rightarrow> error + puzzle" where
  "set_cell p pos character =
     (if \<not> is_valid_position p pos then Inl ValueError
      else if nat (row pos) < length (grid p)
              \<and> nat (col pos) < length (grid p ! nat (row pos))
           then Inr (p\<lparr>grid := (grid p)[nat (row pos) :=
                          (grid p ! nat (row pos))[nat (col pos) := character]]\<rparr>)
           else Inl IndexError)"

text \<open>
  \<open>Puzzle.add_placement\<close>: the loop over \<open>enumerate(placement.positions)\<close>, then the
  append. An exception leaves the loop at once; the model returns the exception and does
  not keep the partly written grid.
\<close>

fun add_placement_loop :: "puzzle \<Rightarrow> word_placement \<Rightarrow> nat \<Rightarrow> position list \<Rightarrow> error + puzzle" where
  "add_placement_loop p pl i [] = Inr p"
| "add_placement_loop p pl i (pos # ps) =
     (case get_character_at pl i of
        Inl e \<Rightarrow> Inl e
      | Inr character \<Rightarrow>
          (case set_cell p pos character of
             Inl e \<Rightarrow> Inl e
           | Inr p' \<Rightarrow> add_placement_loop p' pl (Suc i) ps))"

definition add_placement :: "puzzle \<Rightarrow> word_placement \<Rightarrow> error + puzzle" where
  "add_placement p pl =
     (case add_placement_loop p pl 0 (positions pl) of
        Inl e \<Rightarrow> Inl e
      | Inr p' \<Rightarrow> Inr (p'\<lparr>placements := placements p' @ [pl]\<rparr>))"

text \<open>\<open>Puzzle.can_place_word\<close>: the loop over \<open>enumerate(word.value)\<close>.\<close>

fun can_place_loop :: "puzzle \<Rightarrow> position \<Rightarrow> direction \<Rightarrow> int \<Rightarrow> string \<Rightarrow> error + bool" where
  "can_place_loop p start d i [] = Inr True"
| "can_place_loop p start d i (c # cs) =
     (let pos = target start d i in
      if \<not> is_valid_position p pos then Inr False
      else (case get_cell p pos of
              Inl e \<Rightarrow> Inl e
            | Inr existing_char \<Rightarrow>
                if existing_char \<noteq> [] \<and> existing_char \<noteq> [c] then Inr False
                else can_place_loop p start d (i + 1) cs))"

definition can_place_word :: "puzzle \<Rightarrow> word \<Rightarrow> position \<Rightarrow> direction \<Rightarrow> error + bool" where
  "can_place_word p w start d = can_place_loop p start d 0 (word_value w)"

definition is_complete :: "puzzle \<Rightarrow> bool" where
  "is_complete p = (length (placements p) \<ge> length (words p))"

definition reset :: "puzzle \<Rightarrow> puzzle" where
  "reset p = p\<lparr>grid := empty_grid (grid_size p), placements := []\<rparr>"

text \<open>The data model's grid: a grid_size x grid_size matrix.\<close>

definition wf_grid :: "puzzle \<Rightarrow> bool" where
  "wf_grid p =
     (length (grid p) = nat (grid_size p)
      \<and> list_all (\<lambda>r. length r = nat (grid_size p)) (grid p))"

text \<open>The content of a cell of a well-formed grid.\<close>

definition cell :: "puzzle \<Rightarrow> position \<Rightarrow> string" where
  "cell p pos = grid p ! nat (row pos) ! nat (col pos)"

section \<open>The random source\<close>

text \<open>
  The code draws from Python's module-level \<open>random\<close>. The model threads the source
  explicitly: a tape of the raw draws still to come. \<open>randbelow n\<close> is
  \<open>Random._randbelow(n)\<close>, a number below \<open>n\<close>; \<open>shuffle\<close> is \<open>random.shuffle\<close>
  (for \<open>i\<close> from \<open>len(x) - 1\<close> down to 1: \<open>j = randbelow(i + 1)\<close>, exchange \<open>x[i]\<close> and
  \<open>x[j]\<close>); \<open>choice\<close> is \<open>random.choice\<close> (\<open>seq[randbelow(len(seq))]\<close>, IndexError on an
  empty sequence). Every theorem below holds for every tape.
\<close>

type_synonym rng = "nat list"

fun randbelow :: "nat \<Rightarrow> rng \<Rightarrow> nat \<times> rng" where
  "randbelow n [] = (0, [])"
| "randbelow n (r # rs) = (r mod n, rs)"

fun shuffle_loop :: "nat \<Rightarrow> 'a list \<Rightarrow> rng \<Rightarrow> 'a list \<times> rng" where
  "shuffle_loop 0 xs g = (xs, g)"
| "shuffle_loop (Suc i) xs g =
     (case randbelow (Suc (Suc i)) g of
        (j, g') \<Rightarrow> shuffle_loop i (xs[Suc i := xs ! j, j := xs ! Suc i]) g')"

definition shuffle :: "'a list \<Rightarrow> rng \<Rightarrow> 'a list \<times> rng" where
  "shuffle xs g = shuffle_loop (length xs - 1) xs g"

definition choice :: "'a list \<Rightarrow> rng \<Rightarrow> error + ('a \<times> rng)" where
  "choice seq g =
     (if seq = [] then Inl IndexError
      else (case randbelow (length seq) g of (k, g') \<Rightarrow> Inr (seq ! k, g')))"

definition ascii_uppercase :: string where
  "ascii_uppercase = ''ABCDEFGHIJKLMNOPQRSTUVWXYZ''"

section \<open>Application services (word_puzzle/application/services.py)\<close>

subsection \<open>DirectionBalancer\<close>

text \<open>The \<open>counts\<close> dictionary has its three keys from \<open>__init__\<close> on: a total function.\<close>

record balancer =
  total_words :: int
  counts :: "direction_type \<Rightarrow> int"

definition DirectionBalancer :: "int \<Rightarrow> balancer" where
  "DirectionBalancer n = \<lparr>total_words = n, counts = (\<lambda>_. 0)\<rparr>"

definition increment :: "balancer \<Rightarrow> direction \<Rightarrow> balancer" where
  "increment b d =
     (if is_horizontal d
        then b\<lparr>counts := (counts b)(HORIZONTAL := counts b HORIZONTAL + 1)\<rparr>
      else if is_vertical d
        then b\<lparr>counts := (counts b)(VERTICAL := counts b VERTICAL + 1)\<rparr>
      else b\<lparr>counts := (counts b)(DIAGONAL := counts b DIAGONAL + 1)\<rparr>)"

definition get_priority_directions :: "balancer \<Rightarrow> int \<Rightarrow> direction list" where
  "get_priority_directions b word_index =
     (let target_per_category = total_words b div 3 in
      if counts b DIAGONAL < target_per_category then diagonal @ horizontal @ vertical
      else if counts b HORIZONTAL < target_per_category then horizontal @ diagonal @ vertical
      else if counts b VERTICAL < target_per_category then vertical @ diagonal @ horizontal
      else
        (let all_directions = [horizontal, vertical, diagonal];
             group_idx = nat (word_index mod int (length all_directions));
             selected = all_directions ! group_idx;
             others = concat (map snd (filter (\<lambda>(i, group). i \<noteq> group_idx)
                                           (enumerate 0 all_directions)))
         in selected @ others))"

text \<open>
  \<open>self.counts[DIAGONAL] >= self.total_words * min_percentage\<close> with the default
  \<open>min_percentage = 0.2\<close> is a comparison of an integer with a double. The double 0.2 is
  \<open>3602879701896397 / 2^54\<close>. \<open>total_words * 0.2\<close> converts the integer to a double and
  multiplies, each step rounded to the nearest double (53 significant bits, ties to even);
  the comparison of the integer with the double is exact. A non-negative double is kept here as a
  pair \<open>(m, e)\<close> standing for \<open>m * 2^e\<close>. The range of the exponent of a
  double is not modelled: \<open>total_words\<close> is the length of a list.
\<close>

definition round_half_even_shift :: "int \<Rightarrow> nat \<Rightarrow> int" where
  "round_half_even_shift x e =
     (let q = x div 2 ^ e; r = x mod 2 ^ e in
      if 2 * r < 2 ^ e then q
      else if 2 * r > 2 ^ e then q + 1
      else if even q then q else q + 1)"

definition round_to_double :: "int \<Rightarrow> int \<times> nat" where
  "round_to_double x = (let e = nat (bitlen x - 53) in (round_half_even_shift x e, e))"

definition double_0_2_mantissa :: int where
  "double_0_2_mantissa = 3602879701896397"

text \<open>\<open>n * 0.2\<close> for \<open>n \<ge> 0\<close>: the pair \<open>(m, e)\<close> stands for \<open>m * 2^e / 2^54\<close>.\<close>

definition times_0_2 :: "int \<Rightarrow> int \<times> nat" where
  "times_0_2 n =
     (case round_to_double n of
        (m1, e1) \<Rightarrow>
          (case round_to_double (m1 * double_0_2_mantissa) of
             (m2, e2) \<Rightarrow> (m2, e1 + e2)))"

definition has_sufficient_diagonal_coverage :: "balancer \<Rightarrow> bool" where
  "has_sufficient_diagonal_coverage b =
     (case times_0_2 \<bar>total_words b\<bar> of
        (m, e) \<Rightarrow>
          (if 0 \<le> total_words b
           then counts b DIAGONAL * 2 ^ 54 \<ge> m * 2 ^ e
           else counts b DIAGONAL * 2 ^ 54 \<ge> - (m * 2 ^ e)))"

subsection \<open>WordPlacementService\<close>

definition get_all_positions :: "puzzle \<Rightarrow> position list" where
  "get_all_positions p =
     concat (map (\<lambda>r. map (\<lambda>c. \<lparr>row = r, col = c\<rparr>) (range (grid_size p)))
                 (range (grid_size p)))"

text \<open>The inner loop of \<open>try_place_word\<close>: the scan of the shuffled positions for one
  direction. \<open>Some\<close> is the puzzle after the commit, \<open>None\<close> is "no position fits".\<close>

fun try_positions :: "puzzle \<Rightarrow> word \<Rightarrow> direction \<Rightarrow> position list \<Rightarrow> error + puzzle option" where
  "try_positions p w d [] = Inr None"
| "try_positions p w d (pos # ps) =
     (case can_place_word p w pos d of
        Inl e \<Rightarrow> Inl e
      | Inr True \<Rightarrow>
          (case add_placement p (WordPlacement w pos d) of
             Inl e \<Rightarrow> Inl e
           | Inr p' \<Rightarrow> Inr (Some p'))
      | Inr False \<Rightarrow> try_positions p w d ps)"

text \<open>The outer loop of \<open>try_place_word\<close>, over the shuffled directions.\<close>

fun try_directions :: "puzzle \<Rightarrow> word \<Rightarrow> direction list \<Rightarrow> rng \<Rightarrow> error + (bool \<times> puzzle \<times> rng)" where
  "try_directions p w [] g = Inr (False, p, g)"
| "try_directions p w (d # ds) g =
     (case shuffle (get_all_positions p) g of
        (ps, g') \<Rightarrow>
          (case try_positions p w d ps of
             Inl e \<Rightarrow> Inl e
           | Inr (Some p') \<Rightarrow> Inr (True, p', g')
           | Inr None \<Rightarrow> try_directions p w ds g'))"

text \<open>
  \<open>try_place_word\<close>. The list \<open>directions\<close> is the caller's object and
  \<open>random.shuffle\<close> works in place, so the list as the call leaves it is part of what
  the call does, whether it returns or raises: the first component of the result.
\<close>

definition try_place_word ::
  "puzzle \<Rightarrow> word \<Rightarrow> direction list \<Rightarrow> rng
     \<Rightarrow> direction list \<times> (error + (bool \<times> puzzle \<times> rng))" where
  "try_place_word p w directions g =
     (case shuffle directions g of
        (directions', g1) \<Rightarrow> (directions', try_directions p w directions' g1))"

text \<open>\<open>fill_empty_cells\<close>: the two nested loops visit the cells row by row, which is the
  order of \<open>get_all_positions\<close>.\<close>

fun fill_cells :: "puzzle \<Rightarrow> position list \<Rightarrow> rng \<Rightarrow> error + (puzzle \<times> rng)" where
  "fill_cells p [] g = Inr (p, g)"
| "fill_cells p (pos # ps) g =
     (case get_cell p pos of
        Inl e \<Rightarrow> Inl e
      | Inr c \<Rightarrow>
          if c = [] then
            (case choice ascii_uppercase g of
               Inl e \<Rightarrow> Inl e
             | Inr (l, g') \<Rightarrow>
                 (case set_cell p pos [l] of
                    Inl e \<Rightarrow> Inl e
                  | Inr p' \<Rightarrow> fill_cells p' ps g'))
          else fill_cells p ps g)"

definition fill_empty_cells :: "puzzle \<Rightarrow> rng \<Rightarrow> error + (puzzle \<times> rng)" where
  "fill_empty_cells p g = fill_cells p (get_all_positions p) g"

subsection \<open>PuzzleGenerationStrategy\<close>

text \<open>\<open>puzzle.placements[-1]\<close>.\<close>

definition last_placement :: "puzzle \<Rightarrow> error + word_placement" where
  "last_placement p = (if placements p = [] then Inl IndexError else Inr (last (placements p)))"

text \<open>The loop of \<open>_attempt_placement\<close> over \<open>enumerate(words)\<close>; the boolean is false
  when the loop was left by \<open>return False\<close>.\<close>

fun attempt_loop ::
  "balancer \<Rightarrow> puzzle \<Rightarrow> int \<Rightarrow> word list \<Rightarrow> rng \<Rightarrow> error + (bool \<times> balancer \<times> puzzle \<times> rng)" where
  "attempt_loop b p i [] g = Inr (True, b, p, g)"
| "attempt_loop b p i (w # ws) g =
     (case try_place_word p w (get_priority_directions b i) g of
        (priority_directions, Inl e) \<Rightarrow> Inl e
      | (priority_directions, Inr (placed, p', g')) \<Rightarrow>
          if placed then
            (case last_placement p' of
               Inl e \<Rightarrow> Inl e
             | Inr pl \<Rightarrow> attempt_loop (increment b (direction pl)) p' (i + 1) ws g')
          else Inr (False, b, p', g'))"

definition attempt_placement :: "puzzle \<Rightarrow> word list \<Rightarrow> rng \<Rightarrow> error + (bool \<times> puzzle \<times> rng)" where
  "attempt_placement p ws g =
     (case attempt_loop (DirectionBalancer (int (length ws))) p 0 ws g of
        Inl e \<Rightarrow> Inl e
      | Inr (all_placed, b, p', g') \<Rightarrow>
          Inr (all_placed \<and> has_sufficient_diagonal_coverage b, p', g'))"

text \<open>\<open>sorted(puzzle.words, key=len, reverse=True)\<close>: a stable sort, longest first.\<close>

definition sorted_words :: "puzzle \<Rightarrow> word list" where
  "sorted_words p = sort_key (\<lambda>w. - int (length (word_value w))) (words p)"

text \<open>
  The loop of \<open>generate\<close> over \<open>range(max_attempts)\<close>. The last component of the result
  counts the attempts made (the calls of \<open>_attempt_placement\<close>); the code does not keep
  this number, it is here to state how many attempts a run makes.
\<close>

fun generate_loop ::
  "nat \<Rightarrow> word list \<Rightarrow> puzzle \<Rightarrow> rng \<Rightarrow> nat \<Rightarrow> error + (bool \<times> puzzle \<times> rng \<times> nat)" where
  "generate_loop 0 sw p g k = Inr (False, p, g, k)"
| "generate_loop (Suc n) sw p g k =
     (case shuffle sw g of
        (words_to_place, g1) \<Rightarrow>
          (case attempt_placement (reset p) words_to_place g1 of
             Inl e \<Rightarrow> Inl e
           | Inr (accepted, p1, g2) \<Rightarrow>
               if accepted then
                 (case fill_empty_cells p1 g2 of
                    Inl e \<Rightarrow> Inl e
                  | Inr (p2, g3) \<Rightarrow> Inr (True, p2, g3, Suc k))
               else generate_loop n sw p1 g2 (Suc k)))"

definition generate :: "int \<Rightarrow> puzzle \<Rightarrow> rng \<Rightarrow> error + (bool \<times> puzzle \<times> rng \<times> nat)" where
  "generate max_attempts p g = generate_loop (nat max_attempts) (sorted_words p) p g 0"

section \<open>The use case (word_puzzle/application/use_cases.py)\<close>

text \<open>
  The loop of \<open>_generate_puzzles\<close> over \<open>range(count * 10)\<close> with its \<open>break\<close>
  (\<open>cnt\<close> is the code's \<open>count\<close>); the printing is left out. The last component lists
  the outcomes of the calls of \<open>generate\<close> in order; the code does not keep this list,
  it is here to state how many calls a run makes and how many succeed.
\<close>

fun generate_puzzles_loop ::
  "nat \<Rightarrow> int \<Rightarrow> int \<Rightarrow> int \<Rightarrow> word list \<Rightarrow> puzzle list \<Rightarrow> rng \<Rightarrow> bool list
     \<Rightarrow> error + (puzzle list \<times> rng \<times> bool list)" where
  "generate_puzzles_loop 0 strategy_max_attempts cnt n ws puzzles g calls =
     Inr (puzzles, g, calls)"
| "generate_puzzles_loop (Suc a) strategy_max_attempts cnt n ws puzzles g calls =
     (if int (length puzzles) \<ge> cnt then Inr (puzzles, g, calls)
      else (case generate strategy_max_attempts (Puzzle n ws) g of
              Inl e \<Rightarrow> Inl e
            | Inr (ok, p, g', _) \<Rightarrow>
                generate_puzzles_loop a strategy_max_attempts cnt n ws
                  (if ok then puzzles @ [p] else puzzles) g' (calls @ [ok])))"

definition generate_puzzles ::
  "int \<Rightarrow> int \<Rightarrow> word list \<Rightarrow> int \<Rightarrow> rng \<Rightarrow> error + (puzzle list \<times> rng \<times> bool list)" where
  "generate_puzzles strategy_max_attempts n ws cnt g =
     generate_puzzles_loop (nat (cnt * 10)) strategy_max_attempts cnt n ws [] g []"

section \<open>Invariants of the generation\<close>

text \<open>\<open>Directions.all()\<close>: the eight directions of the catalog.\<close>

definition Directions_all :: "direction list" where
  "Directions_all =
     [HORIZONTAL_RIGHT, HORIZONTAL_LEFT, VERTICAL_DOWN, VERTICAL_UP,
      DIAGONAL_DOWN_RIGHT, DIAGONAL_DOWN_LEFT, DIAGONAL_UP_RIGHT, DIAGONAL_UP_LEFT]"

text \<open>
  A placement is committed in a puzzle when its direction is of the catalog, its
  positions are the computed ones, and every cell of its path is inside the grid and
  holds the word's character.
\<close>

definition committed :: "puzzle \<Rightarrow> word_placement \<Rightarrow> bool" where
  "committed p pl =
     (direction pl \<in> set Directions_all
      \<and> positions pl = calculate_positions (word pl) (start_position pl) (direction pl)
      \<and> (\<forall>i < length (word_value (word pl)).
            is_valid_position p (target (start_position pl) (direction pl) (int i))
            \<and> cell p (target (start_position pl) (direction pl) (int i))
                = [word_value (word pl) ! i]))"

text \<open>
  A puzzle is consistent when its grid is a grid_size x grid_size matrix, each of its
  placements is committed, and every cell that is not empty lies on the path of one of
  its placements.
\<close>

definition consistent :: "puzzle \<Rightarrow> bool" where
  "consistent p =
     (wf_grid p
      \<and> (\<forall>pl \<in> set (placements p). committed p pl)
      \<and> (\<forall>q. is_valid_position p q \<and> cell p q \<noteq> []
              \<longrightarrow> (\<exists>pl \<in> set (placements p). q \<in> set (positions pl))))"

text \<open>The number of placements of a puzzle whose direction is diagonal.\<close>

definition diagonal_placements :: "puzzle \<Rightarrow> nat" where
  "diagonal_placements p = length (filter (\<lambda>pl. is_diagonal (direction pl)) (placements p))"

text \<open>
  What holds of a puzzle that \<open>generate\<close> accepts, for the word sequence \<open>sw\<close> it was
  asked to place: the grid is a matrix, every placement is committed, the placements are
  the words of \<open>sw\<close>, the balancer that counted them passed the diagonal gate, and no cell
  is empty: a cell is on the path of a placement or holds a letter of the alphabet.
\<close>

definition accepted :: "word list \<Rightarrow> puzzle \<Rightarrow> bool" where
  "accepted sw p =
     (wf_grid p
      \<and> (\<forall>pl \<in> set (placements p). committed p pl)
      \<and> mset (map word (placements p)) = mset sw
      \<and> (\<exists>b. total_words b = int (length sw)
              \<and> counts b DIAGONAL = int (diagonal_placements p)
              \<and> has_sufficient_diagonal_coverage b)
      \<and> (\<forall>q. is_valid_position p q
              \<longrightarrow> cell p q \<noteq> []
                  \<and> ((\<exists>pl \<in> set (placements p). q \<in> set (positions pl))
                     \<or> (\<exists>l \<in> set ascii_uppercase. cell p q = [l]))))"

section \<open>Concrete inputs\<close>

text \<open>Words, puzzles and tapes of the random source on which the theorems are run.\<close>

definition CAT :: word where
  "CAT = \<lparr>word_value = ''CAT''\<rparr>"

definition DOG :: word where
  "DOG = \<lparr>word_value = ''DOG''\<rparr>"

definition origin :: position where
  "origin = \<lparr>row = 0, col = 0\<rparr>"

text \<open>A 5 x 5 puzzle in which CAT lies on the first row, from the origin to the right.\<close>

definition cat_puzzle :: puzzle where
  "cat_puzzle =
     \<lparr>grid_size = 5, words = [CAT, DOG],
      placements = [WordPlacement CAT origin HORIZONTAL_RIGHT],
      grid = [[''C'', ''A'', ''T'', [], []], [[], [], [], [], []], [[], [], [], [], []],
              [[], [], [], [], []], [[], [], [], [], []]]\<rparr>"

text \<open>\<open>PuzzleGenerationStrategy.__init__\<close>: the default of \<open>max_attempts\<close>.\<close>

definition default_max_attempts :: int where
  "default_max_attempts = 1000"

definition SUN :: word where
  "SUN = \<lparr>word_value = ''SUN''\<rparr>"

text \<open>
  A tape of the random source: one draw for the shuffle of two words, then seven draws
  that bring the last of eight directions to the front and leave the others in place.
  An exhausted tape draws 0.
\<close>

definition tape_diagonal_first :: rng where
  "tape_diagonal_first = [0, 0, 6, 5, 4, 3, 2, 1]"

text \<open>Seven draws that exchange the first and the fifth of eight directions.\<close>

definition tape_fifth_first :: rng where
  "tape_fifth_first = [7, 6, 5, 0, 3, 2, 1]"

section \<open>Grid model: reads and the placement check\<close>

lemma get_cell_wf:
  assumes "wf_grid p" and "is_valid_position p pos"
  shows "get_cell p pos = Inr (cell p pos)"
proof -
  from assms have r: "nat (row pos) < length (grid p)"
    by (simp add: wf_grid_def is_valid_position_def)
  then have "grid p ! nat (row pos) \<in> set (grid p)"
    by simp
  with assms have "nat (col pos) < length (grid p ! nat (row pos))"
    by (simp add: wf_grid_def is_valid_position_def list_all_iff)
  with r assms(2) show ?thesis
    by (simp add: get_cell_def cell_def)
qed

lemma can_place_loop_wf:
  assumes "wf_grid p"
  shows "can_place_loop p start d k cs =
         Inr (\<forall>i < length cs.
                is_valid_position p (target start d (k + int i))
                \<and> (cell p (target start d (k + int i)) = []
                   \<or> cell p (target start d (k + int i)) = [cs ! i]))"
proof (induction cs arbitrary: k)
  case Nil
  show ?case by simp
next
  case (Cons c cs)
  let ?P = "\<lambda>k cs i. is_valid_position p (target start d (k + int i))
                \<and> (cell p (target start d (k + int i)) = []
                   \<or> cell p (target start d (k + int i)) = [cs ! i])"
  have split: "(\<forall>i < length (c # cs). ?P k (c # cs) i)
               \<longleftrightarrow> ?P k (c # cs) 0 \<and> (\<forall>i < length cs. ?P (k + 1) cs i)"
  proof -
    have "(\<forall>i < length (c # cs). ?P k (c # cs) i)
          \<longleftrightarrow> ?P k (c # cs) 0 \<and> (\<forall>i < length cs. ?P k (c # cs) (Suc i))"
      by (simp add: All_less_Suc2)
    moreover have "\<And>i. k + int (Suc i) = k + 1 + int i"
      by simp
    ultimately show ?thesis
      by (simp only: nth_Cons_Suc)
  qed
  show ?case
  proof (cases "is_valid_position p (target start d k)")
    case False
    then show ?thesis
      unfolding split by (simp add: Let_def)
  next
    case True
    with assms have "get_cell p (target start d k) = Inr (cell p (target start d k))"
      by (rule get_cell_wf)
    with True show ?thesis
      unfolding split by (auto simp add: Cons.IH Let_def)
  qed
qed

text \<open>
  C3. On a puzzle whose grid is the grid_size x grid_size matrix of the data model,
  \<open>can_place_word\<close> raises nothing and returns true if and only if, for each index \<open>i\<close>
  of the word, the position \<open>start + i * delta\<close> is within \<open>[0, grid_size)\<close> in both
  coordinates and the cell there is the empty sentinel or the word's character at \<open>i\<close>.
\<close>

theorem can_place_word_iff:
  assumes "wf_grid p"
  shows "can_place_word p w start d =
         Inr (\<forall>i < length (word_value w).
                is_valid_position p (target start d (int i))
                \<and> (cell p (target start d (int i)) = []
                   \<or> cell p (target start d (int i)) = [word_value w ! i]))"
  using can_place_loop_wf [OF assms, of start d 0 "word_value w"]
  by (simp add: can_place_word_def)

theorem can_place_word_iff_witness:
  "wf_grid (Puzzle 5 [CAT])
   \<and> can_place_word (Puzzle 5 [CAT]) CAT origin DIAGONAL_DOWN_RIGHT = Inr True
   \<and> can_place_word (Puzzle 5 [CAT]) CAT \<lparr>row = 0, col = 3\<rparr> HORIZONTAL_RIGHT = Inr False"
proof -
  have h: "wf_grid (Puzzle 5 [CAT])"
    by code_simp
  have r1: "(\<forall>i < length (word_value CAT).
               is_valid_position (Puzzle 5 [CAT]) (target origin DIAGONAL_DOWN_RIGHT (int i))
               \<and> (cell (Puzzle 5 [CAT]) (target origin DIAGONAL_DOWN_RIGHT (int i)) = []
                  \<or> cell (Puzzle 5 [CAT]) (target origin DIAGONAL_DOWN_RIGHT (int i))
                      = [word_value CAT ! i])) = True"
    by code_simp
  have r2: "(\<forall>i < length (word_value CAT).
               is_valid_position (Puzzle 5 [CAT])
                 (target \<lparr>row = 0, col = 3\<rparr> HORIZONTAL_RIGHT (int i))
               \<and> (cell (Puzzle 5 [CAT]) (target \<lparr>row = 0, col = 3\<rparr> HORIZONTAL_RIGHT (int i)) = []
                  \<or> cell (Puzzle 5 [CAT]) (target \<lparr>row = 0, col = 3\<rparr> HORIZONTAL_RIGHT (int i))
                      = [word_value CAT ! i])) = False"
    by code_simp
  show ?thesis
    using h can_place_word_iff [OF h, of CAT origin DIAGONAL_DOWN_RIGHT]
      can_place_word_iff [OF h, of CAT "\<lparr>row = 0, col = 3\<rparr>" HORIZONTAL_RIGHT]
    by (simp only: r1 r2)
qed

section \<open>The random source: a shuffle is a permutation\<close>

lemma randbelow_less: "0 < n \<Longrightarrow> fst (randbelow n g) < n"
  by (cases g) simp_all

lemma shuffle_loop_mset:
  "i < length xs \<Longrightarrow> mset (fst (shuffle_loop i xs g)) = mset xs"
proof (induction i arbitrary: xs g)
  case 0
  show ?case by simp
next
  case (Suc i)
  obtain j g' where r: "randbelow (Suc (Suc i)) g = (j, g')"
    by (cases "randbelow (Suc (Suc i)) g")
  have "fst (randbelow (Suc (Suc i)) g) < Suc (Suc i)"
    by (rule randbelow_less) simp
  with r Suc.prems have j: "j < length xs"
    by simp
  let ?ys = "xs[Suc i := xs ! j, j := xs ! Suc i]"
  have "mset ?ys = mset xs"
    using Suc.prems j by (simp add: mset_swap)
  moreover have "i < length ?ys"
    using Suc.prems by simp
  ultimately show ?case
    using Suc.IH [of ?ys g'] r by simp
qed

lemma shuffle_mset: "mset (fst (shuffle xs g)) = mset xs"
proof (cases xs)
  case Nil
  then show ?thesis by (simp add: shuffle_def)
next
  case (Cons x ys)
  then show ?thesis
    by (simp add: shuffle_def shuffle_loop_mset)
qed

lemma shuffle_set: "set (fst (shuffle xs g)) = set xs"
  using shuffle_mset [of xs g] by (metis set_mset_mset)

lemma shuffle_length: "length (fst (shuffle xs g)) = length xs"
  using shuffle_mset [of xs g] by (metis size_mset)

text \<open>
  C10. Whatever the puzzle, the word and the random source, the list of directions that
  \<open>try_place_word\<close> leaves to its caller is the list it was given, shuffled: the same
  directions with the same multiplicities (nothing added, nothing removed), in the order
  \<open>random.shuffle\<close> produced.
\<close>

theorem try_place_word_shuffles_directions:
  "mset (fst (try_place_word p w directions g)) = mset directions
   \<and> fst (try_place_word p w directions g) = fst (shuffle directions g)"
proof -
  have "fst (try_place_word p w directions g) = fst (shuffle directions g)"
    by (cases "shuffle directions g") (simp add: try_place_word_def)
  then show ?thesis
    by (simp add: shuffle_mset)
qed

theorem try_place_word_shuffles_directions_witness:
  "mset (fst (try_place_word (Puzzle 5 [CAT]) CAT (diagonal @ horizontal @ vertical) []))
     = mset (diagonal @ horizontal @ vertical)
   \<and> fst (try_place_word (Puzzle 5 [CAT]) CAT (diagonal @ horizontal @ vertical) [])
     = [DIAGONAL_DOWN_LEFT, DIAGONAL_UP_RIGHT, DIAGONAL_UP_LEFT, HORIZONTAL_RIGHT,
        HORIZONTAL_LEFT, VERTICAL_DOWN, VERTICAL_UP, DIAGONAL_DOWN_RIGHT]"
proof -
  note t = try_place_word_shuffles_directions
             [of "Puzzle 5 [CAT]" CAT "diagonal @ horizontal @ vertical" "[]"]
  have e: "fst (shuffle (diagonal @ horizontal @ vertical) [])
           = [DIAGONAL_DOWN_LEFT, DIAGONAL_UP_RIGHT, DIAGONAL_UP_LEFT, HORIZONTAL_RIGHT,
              HORIZONTAL_LEFT, VERTICAL_DOWN, VERTICAL_UP, DIAGONAL_DOWN_RIGHT]"
    by code_simp
  from t have a: "mset (fst (try_place_word (Puzzle 5 [CAT]) CAT
                               (diagonal @ horizontal @ vertical) []))
                  = mset (diagonal @ horizontal @ vertical)"
    by (rule conjunct1)
  from t have b: "fst (try_place_word (Puzzle 5 [CAT]) CAT (diagonal @ horizontal @ vertical) [])
                  = fst (shuffle (diagonal @ horizontal @ vertical) [])"
    by (rule conjunct2)
  from b e have c: "fst (try_place_word (Puzzle 5 [CAT]) CAT
                           (diagonal @ horizontal @ vertical) [])
                    = [DIAGONAL_DOWN_LEFT, DIAGONAL_UP_RIGHT, DIAGONAL_UP_LEFT,
                       HORIZONTAL_RIGHT, HORIZONTAL_LEFT, VERTICAL_DOWN, VERTICAL_UP,
                       DIAGONAL_DOWN_RIGHT]"
    by (rule trans)
  from a c show ?thesis
    by (rule conjI)
qed

section \<open>The direction balancer\<close>

text \<open>
  C6. With \<open>target = total_words div 3\<close> (floor division), \<open>get_priority_directions\<close>
  returns the diagonal directions first when the diagonal count is below the target
  (then horizontal, vertical); else the horizontal directions first when the horizontal
  count is below the target (then diagonal, vertical); else the vertical directions
  first when the vertical count is below the target (then diagonal, horizontal);
  otherwise the round-robin ordering led by the category at \<open>word_index mod 3\<close> of
  (horizontal, vertical, diagonal), the other two following in that order.
\<close>

theorem get_priority_directions_cases:
  "get_priority_directions b word_index =
     (if counts b DIAGONAL < total_words b div 3 then diagonal @ horizontal @ vertical
      else if counts b HORIZONTAL < total_words b div 3 then horizontal @ diagonal @ vertical
      else if counts b VERTICAL < total_words b div 3 then vertical @ diagonal @ horizontal
      else if word_index mod 3 = 0 then horizontal @ vertical @ diagonal
      else if word_index mod 3 = 1 then vertical @ horizontal @ diagonal
      else diagonal @ horizontal @ vertical)"
proof -
  have "0 \<le> word_index mod 3" and "word_index mod 3 < 3"
    by simp_all
  then consider "word_index mod 3 = 0" | "word_index mod 3 = 1" | "word_index mod 3 = 2"
    by linarith
  then show ?thesis
  proof cases
    case 1
    then show ?thesis
      by (simp add: get_priority_directions_def Let_def)
  next
    case 2
    then show ?thesis
      by (simp add: get_priority_directions_def Let_def)
  next
    case 3
    then show ?thesis
      by (simp add: get_priority_directions_def Let_def)
  qed
qed

theorem get_priority_directions_cases_witness:
  "get_priority_directions (DirectionBalancer 12) 0 = diagonal @ horizontal @ vertical
   \<and> get_priority_directions (increment (DirectionBalancer 3) DIAGONAL_UP_LEFT) 7
       = horizontal @ diagonal @ vertical
   \<and> get_priority_directions (DirectionBalancer 2) 4 = vertical @ horizontal @ diagonal"
proof -
  have "is_horizontal DIAGONAL_UP_LEFT = False" and "is_vertical DIAGONAL_UP_LEFT = False"
    by code_simp+
  then show ?thesis
    using get_priority_directions_cases [of "DirectionBalancer 12" 0]
      get_priority_directions_cases [of "increment (DirectionBalancer 3) DIAGONAL_UP_LEFT" 7]
      get_priority_directions_cases [of "DirectionBalancer 2" 4]
    by (simp add: DirectionBalancer_def increment_def)
qed

section \<open>Grid model: writes and the commit of a placement\<close>

lemma set_cell_wf:
  assumes "wf_grid p" and "is_valid_position p pos"
  shows "\<exists>p'. set_cell p pos ch = Inr p' \<and> wf_grid p' \<and> grid_size p' = grid_size p
              \<and> placements p' = placements p \<and> words p' = words p
              \<and> (\<forall>q. is_valid_position p q \<longrightarrow> cell p' q = (if q = pos then ch else cell p q))"
proof -
  from assms have r: "nat (row pos) < length (grid p)"
    by (simp add: wf_grid_def is_valid_position_def)
  then have "grid p ! nat (row pos) \<in> set (grid p)"
    by simp
  with assms have c: "nat (col pos) < length (grid p ! nat (row pos))"
    by (simp add: wf_grid_def is_valid_position_def list_all_iff)
  let ?p' = "p\<lparr>grid := (grid p)[nat (row pos) := (grid p ! nat (row pos))[nat (col pos) := ch]]\<rparr>"
  have s: "set_cell p pos ch = Inr ?p'"
    using assms(2) r c by (simp add: set_cell_def)
  have w: "wf_grid ?p'"
    using assms(1) r
    by (auto simp add: wf_grid_def list_all_iff dest!: set_update_subset_insert [THEN subsetD])
  have cells: "\<forall>q. is_valid_position p q \<longrightarrow> cell ?p' q = (if q = pos then ch else cell p q)"
  proof (intro allI impI)
    fix q
    assume q: "is_valid_position p q"
    from assms(1) q have rq: "nat (row q) < length (grid p)"
      by (simp add: wf_grid_def is_valid_position_def)
    show "cell ?p' q = (if q = pos then ch else cell p q)"
    proof (cases "q = pos")
      case True
      with r c show ?thesis
        by (simp add: cell_def)
    next
      case False
      have "nat (row q) \<noteq> nat (row pos) \<or> nat (col q) \<noteq> nat (col pos)"
      proof (rule ccontr)
        assume "\<not> ?thesis"
        with q assms(2) have "row q = row pos" and "col q = col pos"
          by (simp_all add: is_valid_position_def eq_nat_nat_iff)
        then have "q = pos"
          by simp
        with False show False ..
      qed
      with False r rq show ?thesis
        by (auto simp add: cell_def nth_list_update)
    qed
  qed
  from s w cells show ?thesis
    by simp
qed

lemma set_cell_invalid: "\<not> is_valid_position p pos \<Longrightarrow> set_cell p pos ch = Inl ValueError"
  by (simp add: set_cell_def)

lemma add_placement_loop_ok:
  assumes "wf_grid p" and "\<forall>pos \<in> set ps. is_valid_position p pos" and "distinct ps"
    and "k + length ps \<le> length (word_value (word pl))"
  shows "\<exists>p'. add_placement_loop p pl k ps = Inr p' \<and> wf_grid p'
              \<and> grid_size p' = grid_size p \<and> placements p' = placements p
              \<and> words p' = words p
              \<and> (\<forall>i < length ps. cell p' (ps ! i) = [word_value (word pl) ! (k + i)])
              \<and> (\<forall>q. is_valid_position p q \<and> q \<notin> set ps \<longrightarrow> cell p' q = cell p q)"
  using assms
proof (induction ps arbitrary: p k)
  case Nil
  then show ?case by simp
next
  case (Cons pos ps)
  from Cons.prems have k: "k < length (word_value (word pl))"
    by simp
  then have ch: "get_character_at pl k = Inr [word_value (word pl) ! k]"
    by (simp add: get_character_at_def)
  from Cons.prems have "is_valid_position p pos"
    by simp
  with Cons.prems(1) obtain p1 where p1: "set_cell p pos [word_value (word pl) ! k] = Inr p1"
    and w1: "wf_grid p1" and g1: "grid_size p1 = grid_size p"
    and pl1: "placements p1 = placements p" and ws1: "words p1 = words p"
    and c1: "\<forall>q. is_valid_position p q \<longrightarrow>
                  cell p1 q = (if q = pos then [word_value (word pl) ! k] else cell p q)"
    using set_cell_wf [of p pos "[word_value (word pl) ! k]"] by blast
  have v1: "\<forall>q \<in> set ps. is_valid_position p1 q"
    using Cons.prems(2) g1 by (simp add: is_valid_position_def)
  have d1: "distinct ps" and notin: "pos \<notin> set ps"
    using Cons.prems(3) by simp_all
  have l1: "Suc k + length ps \<le> length (word_value (word pl))"
    using Cons.prems(4) by simp
  from Cons.IH [OF w1 v1 d1 l1] obtain p' where
    r: "add_placement_loop p1 pl (Suc k) ps = Inr p'" and w': "wf_grid p'"
    and g': "grid_size p' = grid_size p1" and pl': "placements p' = placements p1"
    and ws': "words p' = words p1"
    and c': "\<forall>i < length ps. cell p' (ps ! i) = [word_value (word pl) ! (Suc k + i)]"
    and u': "\<forall>q. is_valid_position p1 q \<and> q \<notin> set ps \<longrightarrow> cell p' q = cell p1 q"
    by blast
  have run: "add_placement_loop p pl k (pos # ps) = Inr p'"
    using ch p1 r by simp
  have vpos: "is_valid_position p1 pos"
    using \<open>is_valid_position p pos\<close> g1 by (simp add: is_valid_position_def)
  have head: "cell p' pos = [word_value (word pl) ! k]"
    using u' vpos notin c1 \<open>is_valid_position p pos\<close> by simp
  have cells: "\<forall>i < length (pos # ps). cell p' ((pos # ps) ! i) = [word_value (word pl) ! (k + i)]"
  proof (intro allI impI)
    fix i
    assume "i < length (pos # ps)"
    then show "cell p' ((pos # ps) ! i) = [word_value (word pl) ! (k + i)]"
      using head c' by (cases i) simp_all
  qed
  have rest: "\<forall>q. is_valid_position p q \<and> q \<notin> set (pos # ps) \<longrightarrow> cell p' q = cell p q"
  proof (intro allI impI)
    fix q
    assume q: "is_valid_position p q \<and> q \<notin> set (pos # ps)"
    then have "is_valid_position p1 q" and "q \<notin> set ps" and "q \<noteq> pos"
      using g1 by (simp_all add: is_valid_position_def)
    then have "cell p' q = cell p1 q"
      using u' by simp
    also have "\<dots> = cell p q"
      using c1 q \<open>q \<noteq> pos\<close> by simp
    finally show "cell p' q = cell p q" .
  qed
  from run w' g' g1 pl' pl1 ws' ws1 cells rest show ?case
    by simp
qed

lemma add_placement_loop_invalid:
  assumes "wf_grid p" and "\<exists>pos \<in> set ps. \<not> is_valid_position p pos"
    and "k + length ps \<le> length (word_value (word pl))"
  shows "add_placement_loop p pl k ps = Inl ValueError"
  using assms
proof (induction ps arbitrary: p k)
  case Nil
  then show ?case by simp
next
  case (Cons pos ps)
  from Cons.prems have k: "k < length (word_value (word pl))"
    by simp
  then have ch: "get_character_at pl k = Inr [word_value (word pl) ! k]"
    by (simp add: get_character_at_def)
  show ?case
  proof (cases "is_valid_position p pos")
    case False
    then show ?thesis
      using ch by (simp add: set_cell_invalid)
  next
    case True
    with Cons.prems(1) obtain p1 where p1: "set_cell p pos [word_value (word pl) ! k] = Inr p1"
      and w1: "wf_grid p1" and g1: "grid_size p1 = grid_size p"
      using set_cell_wf [of p pos "[word_value (word pl) ! k]"] by blast
    from True Cons.prems(2) have "\<exists>q \<in> set ps. \<not> is_valid_position p1 q"
      using g1 by (auto simp add: is_valid_position_def)
    moreover have "Suc k + length ps \<le> length (word_value (word pl))"
      using Cons.prems(3) by simp
    ultimately have "add_placement_loop p1 pl (Suc k) ps = Inl ValueError"
      using Cons.IH [OF w1] by blast
    then show ?thesis
      using ch p1 by simp
  qed
qed

lemma length_calculate_positions:
  "length (calculate_positions w start d) = length (word_value w)"
  by (simp add: calculate_positions_def range_def)

lemma nth_calculate_positions:
  "i < length (word_value w) \<Longrightarrow> calculate_positions w start d ! i = target start d (int i)"
  by (simp add: calculate_positions_def range_def)

lemma target_inj:
  assumes "row_delta d \<noteq> 0 \<or> col_delta d \<noteq> 0" and "target start d i = target start d j"
  shows "i = j"
proof -
  from assms(2) have "i * row_delta d = j * row_delta d" and "i * col_delta d = j * col_delta d"
    by (simp_all add: target_def)
  with assms(1) show ?thesis
    by auto
qed

lemma distinct_calculate_positions:
  assumes "row_delta d \<noteq> 0 \<or> col_delta d \<noteq> 0"
  shows "distinct (calculate_positions w start d)"
proof -
  have "calculate_positions w start d ! i \<noteq> calculate_positions w start d ! j"
    if "i < length (word_value w)" and "j < length (word_value w)" and "i \<noteq> j" for i j
    using that target_inj [OF assms, of start "int i" "int j"]
    by (auto simp add: nth_calculate_positions)
  then show ?thesis
    by (simp add: distinct_conv_nth length_calculate_positions)
qed

lemma add_placement_valid:
  assumes "wf_grid p" and "row_delta d \<noteq> 0 \<or> col_delta d \<noteq> 0"
    and "\<forall>i < length (word_value w). is_valid_position p (target start d (int i))"
  shows "\<exists>p'. add_placement p (WordPlacement w start d) = Inr p'
              \<and> placements p' = placements p @ [WordPlacement w start d]
              \<and> grid_size p' = grid_size p \<and> words p' = words p \<and> wf_grid p'
              \<and> (\<forall>i < length (word_value w).
                    cell p' (target start d (int i)) = [word_value w ! i])
              \<and> (\<forall>q. is_valid_position p q \<and> q \<notin> set (calculate_positions w start d)
                      \<longrightarrow> cell p' q = cell p q)"
proof -
  let ?pl = "WordPlacement w start d"
  let ?ps = "calculate_positions w start d"
  have v: "\<forall>pos \<in> set ?ps. is_valid_position p pos"
    using assms(3)
    by (auto simp add: in_set_conv_nth length_calculate_positions nth_calculate_positions)
  have l: "0 + length ?ps \<le> length (word_value (word ?pl))"
    by (simp add: WordPlacement_def length_calculate_positions)
  from add_placement_loop_ok [OF assms(1) v distinct_calculate_positions [OF assms(2)] l]
  obtain p1 where r: "add_placement_loop p ?pl 0 ?ps = Inr p1" and w1: "wf_grid p1"
    and g1: "grid_size p1 = grid_size p" and pl1: "placements p1 = placements p"
    and ws1: "words p1 = words p"
    and c1: "\<forall>i < length ?ps. cell p1 (?ps ! i) = [word_value (word ?pl) ! (0 + i)]"
    and u1: "\<forall>q. is_valid_position p q \<and> q \<notin> set ?ps \<longrightarrow> cell p1 q = cell p q"
    by blast
  let ?p' = "p1\<lparr>placements := placements p1 @ [?pl]\<rparr>"
  have run: "add_placement p ?pl = Inr ?p'"
    using r by (simp add: add_placement_def WordPlacement_def)
  have w': "wf_grid ?p'"
    using w1 by (simp add: wf_grid_def)
  have c': "\<forall>i < length (word_value w). cell ?p' (target start d (int i)) = [word_value w ! i]"
    using c1 by (simp add: cell_def length_calculate_positions nth_calculate_positions
        WordPlacement_def)
  have u': "\<forall>q. is_valid_position p q \<and> q \<notin> set ?ps \<longrightarrow> cell ?p' q = cell p q"
    using u1 by (simp add: cell_def)
  from run w' c' u' g1 pl1 ws1 show ?thesis
    by simp
qed

lemma add_placement_invalid:
  assumes "wf_grid p"
    and "\<not> (\<forall>i < length (word_value w). is_valid_position p (target start d (int i)))"
  shows "add_placement p (WordPlacement w start d) = Inl ValueError"
proof -
  let ?pl = "WordPlacement w start d"
  let ?ps = "calculate_positions w start d"
  from assms(2) obtain i where "i < length (word_value w)"
    and "\<not> is_valid_position p (target start d (int i))"
    by blast
  then have "\<exists>pos \<in> set ?ps. \<not> is_valid_position p pos"
    by (auto simp add: in_set_conv_nth length_calculate_positions nth_calculate_positions
        intro!: bexI [of _ "target start d (int i)"] exI [of _ i])
  moreover have "0 + length ?ps \<le> length (word_value (word ?pl))"
    by (simp add: WordPlacement_def length_calculate_positions)
  ultimately have "add_placement_loop p ?pl 0 ?ps = Inl ValueError"
    using assms(1) by (rule add_placement_loop_invalid [rotated])
  then show ?thesis
    by (simp add: add_placement_def WordPlacement_def)
qed

text \<open>
  C9, as the code has it. On a grid_size x grid_size grid and for a direction with a
  non-zero vector, \<open>add_placement\<close> does not look at what the cells hold: when every
  computed position is inside the grid it writes the word's character at each of them
  (whatever was there before), leaves every other cell as it was and appends the
  WordPlacement, whether or not \<open>can_place_word\<close> would return true. The bounds check of
  \<open>set_cell\<close> remains: when a computed position is outside the grid, \<open>add_placement\<close>
  raises ValueError.
\<close>

theorem add_placement_checks_bounds_only:
  assumes "wf_grid p" and "row_delta d \<noteq> 0 \<or> col_delta d \<noteq> 0"
  shows "((\<forall>i < length (word_value w). is_valid_position p (target start d (int i)))
           \<longrightarrow> (\<exists>p'. add_placement p (WordPlacement w start d) = Inr p'
                  \<and> placements p' = placements p @ [WordPlacement w start d]
                  \<and> grid_size p' = grid_size p \<and> words p' = words p \<and> wf_grid p'
                  \<and> (\<forall>i < length (word_value w).
                        cell p' (target start d (int i)) = [word_value w ! i])
                  \<and> (\<forall>q. is_valid_position p q \<and> q \<notin> set (calculate_positions w start d)
                          \<longrightarrow> cell p' q = cell p q)))
       \<and> (\<not> (\<forall>i < length (word_value w). is_valid_position p (target start d (int i)))
           \<longrightarrow> add_placement p (WordPlacement w start d) = Inl ValueError)"
  using add_placement_valid [OF assms, of w start] add_placement_invalid [OF assms(1), of w start d]
  by blast

text \<open>
  The claim C9 as stated fails: on the empty 5 x 5 grid, placing CAT from (0, 3) to the
  right leaves the grid at its third letter, and \<open>add_placement\<close> raises ValueError.
\<close>

theorem add_placement_raises_counterexample:
  "wf_grid (Puzzle 5 [CAT])
   \<and> add_placement (Puzzle 5 [CAT]) (WordPlacement CAT \<lparr>row = 0, col = 3\<rparr> HORIZONTAL_RIGHT)
       = Inl ValueError"
  by code_simp

theorem add_placement_checks_bounds_only_witness:
  "wf_grid cat_puzzle
   \<and> can_place_word cat_puzzle DOG origin HORIZONTAL_RIGHT = Inr False
   \<and> (\<exists>p'. add_placement cat_puzzle (WordPlacement DOG origin HORIZONTAL_RIGHT) = Inr p'
          \<and> placements p' = placements cat_puzzle @ [WordPlacement DOG origin HORIZONTAL_RIGHT]
          \<and> cell p' origin = ''D'')
   \<and> add_placement cat_puzzle (WordPlacement DOG \<lparr>row = 0, col = 3\<rparr> HORIZONTAL_RIGHT)
       = Inl ValueError"
proof -
  have h: "wf_grid cat_puzzle"
    by code_simp
  have d: "row_delta HORIZONTAL_RIGHT \<noteq> 0 \<or> col_delta HORIZONTAL_RIGHT \<noteq> 0"
    by (simp add: HORIZONTAL_RIGHT_def)
  have c: "can_place_word cat_puzzle DOG origin HORIZONTAL_RIGHT = Inr False"
    by code_simp
  have v1: "(\<forall>i < length (word_value DOG).
               is_valid_position cat_puzzle (target origin HORIZONTAL_RIGHT (int i))) = True"
    by code_simp
  have v2: "(\<forall>i < length (word_value DOG).
               is_valid_position cat_puzzle
                 (target \<lparr>row = 0, col = 3\<rparr> HORIZONTAL_RIGHT (int i))) = False"
    by code_simp
  have t0: "target origin HORIZONTAL_RIGHT (int 0) = origin"
    by (simp add: target_def origin_def)
  have l: "0 < length (word_value DOG)" and n: "[word_value DOG ! 0] = ''D''"
    by (simp_all add: DOG_def)
  from add_placement_checks_bounds_only [OF h d, of DOG origin] v1
  obtain p' where "add_placement cat_puzzle (WordPlacement DOG origin HORIZONTAL_RIGHT) = Inr p'"
    and "placements p' = placements cat_puzzle @ [WordPlacement DOG origin HORIZONTAL_RIGHT]"
    and "\<forall>i < length (word_value DOG).
           cell p' (target origin HORIZONTAL_RIGHT (int i)) = [word_value DOG ! i]"
    by auto
  moreover from this(3) l have "cell p' (target origin HORIZONTAL_RIGHT (int 0)) = [word_value DOG ! 0]"
    by blast
  moreover have "add_placement cat_puzzle (WordPlacement DOG \<lparr>row = 0, col = 3\<rparr> HORIZONTAL_RIGHT)
                 = Inl ValueError"
    using add_placement_checks_bounds_only [OF h d, of DOG "\<lparr>row = 0, col = 3\<rparr>"] v2
    by simp
  ultimately show ?thesis
    using h c t0 n by auto
qed

section \<open>The placement prober keeps the puzzle consistent\<close>

lemma Directions_all_kinds:
  assumes "d \<in> set Directions_all"
  shows "(row_delta d \<noteq> 0 \<or> col_delta d \<noteq> 0)
         \<and> is_diagonal d = (\<not> is_horizontal d \<and> \<not> is_vertical d)"
proof -
  have "list_all (\<lambda>d. (row_delta d \<noteq> 0 \<or> col_delta d \<noteq> 0)
                       \<and> is_diagonal d = (\<not> is_horizontal d \<and> \<not> is_vertical d))
          Directions_all"
    by code_simp
  then have "\<forall>d \<in> set Directions_all.
               (row_delta d \<noteq> 0 \<or> col_delta d \<noteq> 0)
               \<and> is_diagonal d = (\<not> is_horizontal d \<and> \<not> is_vertical d)"
    by (simp only: list_all_iff)
  with assms show ?thesis
    by blast
qed

lemma can_place_word_wf:
  assumes "wf_grid p"
  shows "can_place_word p w start d =
         Inr (\<forall>i < length (word_value w).
                is_valid_position p (target start d (int i))
                \<and> (cell p (target start d (int i)) = []
                   \<or> cell p (target start d (int i)) = [word_value w ! i]))"
  using can_place_loop_wf [OF assms, of start d 0 "word_value w"]
  by (simp add: can_place_word_def)

lemma committed_WordPlacement:
  "committed p (WordPlacement w start d) =
     (d \<in> set Directions_all
      \<and> (\<forall>i < length (word_value w).
            is_valid_position p (target start d (int i))
            \<and> cell p (target start d (int i)) = [word_value w ! i]))"
  by (simp add: committed_def WordPlacement_def)

lemma commit_consistent:
  assumes "consistent p" and "d \<in> set Directions_all"
    and "can_place_word p w start d = Inr True"
  shows "\<exists>p'. add_placement p (WordPlacement w start d) = Inr p' \<and> consistent p'
              \<and> grid_size p' = grid_size p \<and> words p' = words p
              \<and> placements p' = placements p @ [WordPlacement w start d]"
proof -
  from assms(1) have wf: "wf_grid p"
    by (simp add: consistent_def)
  have nz: "row_delta d \<noteq> 0 \<or> col_delta d \<noteq> 0"
    using Directions_all_kinds [OF assms(2)] by blast
  from assms(3) have free: "\<forall>i < length (word_value w).
      is_valid_position p (target start d (int i))
      \<and> (cell p (target start d (int i)) = []
         \<or> cell p (target start d (int i)) = [word_value w ! i])"
    by (simp add: can_place_word_wf [OF wf])
  then have valid: "\<forall>i < length (word_value w). is_valid_position p (target start d (int i))"
    by blast
  from add_placement_valid [OF wf nz valid] obtain p' where
    run: "add_placement p (WordPlacement w start d) = Inr p'"
    and pls: "placements p' = placements p @ [WordPlacement w start d]"
    and gs: "grid_size p' = grid_size p" and ws: "words p' = words p" and wf': "wf_grid p'"
    and path: "\<forall>i < length (word_value w). cell p' (target start d (int i)) = [word_value w ! i]"
    and rest: "\<forall>q. is_valid_position p q \<and> q \<notin> set (calculate_positions w start d)
                   \<longrightarrow> cell p' q = cell p q"
    by blast
  have keep: "cell p' q = cell p q" if q: "is_valid_position p q" and ne: "cell p q \<noteq> []" for q
  proof (cases "q \<in> set (calculate_positions w start d)")
    case False
    with rest q show ?thesis by blast
  next
    case True
    then obtain i where i: "i < length (word_value w)" and qi: "q = target start d (int i)"
      by (auto simp add: in_set_conv_nth length_calculate_positions nth_calculate_positions)
    from free i qi ne have "cell p q = [word_value w ! i]"
      by blast
    moreover from path i qi have "cell p' q = [word_value w ! i]"
      by blast
    ultimately show ?thesis by simp
  qed
  have new: "committed p' (WordPlacement w start d)"
    using assms(2) valid path gs
    by (simp add: committed_WordPlacement is_valid_position_def)
  have old: "committed p' pl" if "pl \<in> set (placements p)" for pl
  proof -
    from assms(1) that have c: "committed p pl"
      by (simp add: consistent_def)
    have "is_valid_position p' (target (start_position pl) (direction pl) (int i))
          \<and> cell p' (target (start_position pl) (direction pl) (int i))
              = [word_value (word pl) ! i]"
      if i: "i < length (word_value (word pl))" for i
    proof -
      let ?q = "target (start_position pl) (direction pl) (int i)"
      from c i have v: "is_valid_position p ?q" and e: "cell p ?q = [word_value (word pl) ! i]"
        by (simp_all add: committed_def)
      from e have "cell p ?q \<noteq> []"
        by simp
      with v have "cell p' ?q = cell p ?q"
        by (rule keep)
      with v e gs show ?thesis
        by (simp add: is_valid_position_def)
    qed
    with c show ?thesis
      by (simp add: committed_def)
  qed
  have cover: "\<exists>pl \<in> set (placements p'). q \<in> set (positions pl)"
    if q: "is_valid_position p' q" and ne: "cell p' q \<noteq> []" for q
  proof (cases "q \<in> set (calculate_positions w start d)")
    case True
    then have "q \<in> set (positions (WordPlacement w start d))"
      by (simp add: WordPlacement_def)
    with pls show ?thesis
      by auto
  next
    case False
    from q gs have v: "is_valid_position p q"
      by (simp add: is_valid_position_def)
    with False rest have "cell p' q = cell p q"
      by blast
    with ne v assms(1) obtain pl where "pl \<in> set (placements p)" and "q \<in> set (positions pl)"
      by (auto simp add: consistent_def)
    with pls show ?thesis
      by auto
  qed
  have "consistent p'"
    unfolding consistent_def
  proof (intro conjI ballI allI impI)
    show "wf_grid p'"
      by (rule wf')
  next
    fix pl
    assume "pl \<in> set (placements p')"
    with pls have "pl = WordPlacement w start d \<or> pl \<in> set (placements p)"
      by auto
    with new old show "committed p' pl"
      by blast
  next
    fix q
    assume "is_valid_position p' q \<and> cell p' q \<noteq> []"
    then show "\<exists>pl \<in> set (placements p'). q \<in> set (positions pl)"
      using cover by blast
  qed
  with run gs ws pls show ?thesis
    by simp
qed

lemma try_positions_consistent:
  assumes "consistent p" and "d \<in> set Directions_all"
  shows "try_positions p w d ps = Inr None
         \<or> (\<exists>p' pos. try_positions p w d ps = Inr (Some p') \<and> consistent p'
              \<and> grid_size p' = grid_size p \<and> words p' = words p
              \<and> placements p' = placements p @ [WordPlacement w pos d])"
proof (induction ps)
  case Nil
  show ?case by simp
next
  case (Cons pos ps)
  from assms(1) have wf: "wf_grid p"
    by (simp add: consistent_def)
  from can_place_word_wf [OF wf, of w pos d]
  consider "can_place_word p w pos d = Inr True" | "can_place_word p w pos d = Inr False"
    by (cases "\<forall>i < length (word_value w).
                is_valid_position p (target pos d (int i))
                \<and> (cell p (target pos d (int i)) = []
                   \<or> cell p (target pos d (int i)) = [word_value w ! i])") simp_all
  then show ?case
  proof cases
    case 1
    from commit_consistent [OF assms 1] obtain p' where
      "add_placement p (WordPlacement w pos d) = Inr p'" and "consistent p'"
      and "grid_size p' = grid_size p" and "words p' = words p"
      and "placements p' = placements p @ [WordPlacement w pos d]"
      by blast
    with 1 show ?thesis
      by auto
  next
    case 2
    with Cons.IH show ?thesis
      by simp
  qed
qed

lemma try_directions_consistent:
  assumes "consistent p" and "set ds \<subseteq> set Directions_all"
  shows "\<exists>g'. try_directions p w ds g = Inr (False, p, g')
              \<or> (\<exists>p' pos d. try_directions p w ds g = Inr (True, p', g') \<and> consistent p'
                     \<and> grid_size p' = grid_size p \<and> words p' = words p \<and> d \<in> set ds
                     \<and> placements p' = placements p @ [WordPlacement w pos d])"
  using assms(2)
proof (induction ds arbitrary: g)
  case Nil
  show ?case by simp
next
  case (Cons d ds)
  obtain ps g1 where sh: "shuffle (get_all_positions p) g = (ps, g1)"
    by (cases "shuffle (get_all_positions p) g")
  from Cons.prems have d: "d \<in> set Directions_all" and ds: "set ds \<subseteq> set Directions_all"
    by simp_all
  from try_positions_consistent [OF assms(1) d, of w ps]
  show ?case
  proof (elim disjE exE conjE)
    assume "try_positions p w d ps = Inr None"
    with sh Cons.IH [OF ds, of g1] show ?thesis
      by auto
  next
    fix p' pos
    assume "try_positions p w d ps = Inr (Some p')" and "consistent p'"
      and "grid_size p' = grid_size p" and "words p' = words p"
      and "placements p' = placements p @ [WordPlacement w pos d]"
    with sh show ?thesis
      by auto
  qed
qed

lemma try_place_word_consistent:
  assumes "consistent p" and "set ds \<subseteq> set Directions_all"
  shows "\<exists>g'. snd (try_place_word p w ds g) = Inr (False, p, g')
              \<or> (\<exists>p' pos d. snd (try_place_word p w ds g) = Inr (True, p', g')
                     \<and> consistent p' \<and> grid_size p' = grid_size p \<and> words p' = words p
                     \<and> d \<in> set Directions_all
                     \<and> placements p' = placements p @ [WordPlacement w pos d])"
proof -
  obtain ds' g1 where sh: "shuffle ds g = (ds', g1)"
    by (cases "shuffle ds g")
  then have "set ds' = set ds"
    using shuffle_set [of ds g] by simp
  with assms(2) have sub: "set ds' \<subseteq> set Directions_all"
    by simp
  have run: "snd (try_place_word p w ds g) = try_directions p w ds' g1"
    using sh by (simp add: try_place_word_def)
  from try_directions_consistent [OF assms(1) sub, of w g1]
  obtain g' where "try_directions p w ds' g1 = Inr (False, p, g')
      \<or> (\<exists>p' pos d. try_directions p w ds' g1 = Inr (True, p', g') \<and> consistent p'
             \<and> grid_size p' = grid_size p \<and> words p' = words p \<and> d \<in> set ds'
             \<and> placements p' = placements p @ [WordPlacement w pos d])"
    by blast
  then show ?thesis
  proof (elim disjE exE conjE)
    assume "try_directions p w ds' g1 = Inr (False, p, g')"
    then show ?thesis
      unfolding run by blast
  next
    fix p' pos d
    assume "try_directions p w ds' g1 = Inr (True, p', g')" and "consistent p'"
      and "grid_size p' = grid_size p" and "words p' = words p" and "d \<in> set ds'"
      and "placements p' = placements p @ [WordPlacement w pos d]"
    moreover from \<open>d \<in> set ds'\<close> sub have "d \<in> set Directions_all"
      by blast
    ultimately show ?thesis
      unfolding run by blast
  qed
qed

section \<open>One attempt keeps the puzzle consistent\<close>

lemma get_priority_directions_subset:
  "set (get_priority_directions b word_index) \<subseteq> set Directions_all"
proof -
  have "0 \<le> word_index mod 3" and "word_index mod 3 < 3"
    by simp_all
  then consider "word_index mod 3 = 0" | "word_index mod 3 = 1" | "word_index mod 3 = 2"
    by linarith
  then show ?thesis
  proof cases
    case 1
    then show ?thesis
      by (simp add: get_priority_directions_def Let_def Directions_all_def
          horizontal_def vertical_def diagonal_def)
  next
    case 2
    then show ?thesis
      by (simp add: get_priority_directions_def Let_def Directions_all_def
          horizontal_def vertical_def diagonal_def)
  next
    case 3
    then show ?thesis
      by (simp add: get_priority_directions_def Let_def Directions_all_def
          horizontal_def vertical_def diagonal_def)
  qed
qed

lemma increment_diagonal:
  assumes "d \<in> set Directions_all"
  shows "counts (increment b d) DIAGONAL = counts b DIAGONAL + (if is_diagonal d then 1 else 0)"
    and "total_words (increment b d) = total_words b"
  using Directions_all_kinds [OF assms] by (auto simp add: increment_def)

lemma last_placement_append:
  "placements p = pls @ [pl] \<Longrightarrow> last_placement p = Inr pl"
  by (simp add: last_placement_def)

lemma diagonal_placements_append:
  "placements p' = placements p @ [pl] \<Longrightarrow>
   diagonal_placements p' = diagonal_placements p + (if is_diagonal (direction pl) then 1 else 0)"
  by (simp add: diagonal_placements_def)

lemma attempt_loop_consistent:
  assumes "consistent p"
  shows "\<exists>ok b' p' g'. attempt_loop b p i ws g = Inr (ok, b', p', g') \<and> consistent p'
           \<and> grid_size p' = grid_size p \<and> words p' = words p
           \<and> total_words b' = total_words b
           \<and> (ok \<longrightarrow> map word (placements p') = map word (placements p) @ ws
                    \<and> counts b' DIAGONAL - int (diagonal_placements p')
                        = counts b DIAGONAL - int (diagonal_placements p))"
  using assms
proof (induction ws arbitrary: b p i g)
  case Nil
  then show ?case by auto
next
  case (Cons w ws)
  let ?ds = "get_priority_directions b i"
  obtain ds' r where tp: "try_place_word p w ?ds g = (ds', r)"
    by (cases "try_place_word p w ?ds g")
  then have r: "snd (try_place_word p w ?ds g) = r"
    by simp
  from try_place_word_consistent [OF Cons.prems get_priority_directions_subset, of w b i g]
  obtain g1 where "r = Inr (False, p, g1)
      \<or> (\<exists>p1 pos d. r = Inr (True, p1, g1) \<and> consistent p1
             \<and> grid_size p1 = grid_size p \<and> words p1 = words p \<and> d \<in> set Directions_all
             \<and> placements p1 = placements p @ [WordPlacement w pos d])"
    unfolding r by blast
  then show ?case
  proof (elim disjE exE conjE)
    assume "r = Inr (False, p, g1)"
    with tp Cons.prems show ?thesis
      by auto
  next
    fix p1 pos d
    assume r1: "r = Inr (True, p1, g1)" and c1: "consistent p1"
      and gs1: "grid_size p1 = grid_size p" and ws1: "words p1 = words p"
      and d: "d \<in> set Directions_all"
      and pl1: "placements p1 = placements p @ [WordPlacement w pos d]"
    let ?b1 = "increment b (direction (WordPlacement w pos d))"
    have dir: "direction (WordPlacement w pos d) = d" and wd: "word (WordPlacement w pos d) = w"
      by (simp_all add: WordPlacement_def)
    from pl1 have lp: "last_placement p1 = Inr (WordPlacement w pos d)"
      by (rule last_placement_append)
    from Cons.IH [OF c1, of ?b1 "i + 1" g1]
    obtain ok b' p' g' where run: "attempt_loop ?b1 p1 (i + 1) ws g1 = Inr (ok, b', p', g')"
      and c': "consistent p'" and gs': "grid_size p' = grid_size p1"
      and ws': "words p' = words p1" and tw': "total_words b' = total_words ?b1"
      and ok': "ok \<longrightarrow> map word (placements p') = map word (placements p1) @ ws
                    \<and> counts b' DIAGONAL - int (diagonal_placements p')
                        = counts ?b1 DIAGONAL - int (diagonal_placements p1)"
      by blast
    have step: "attempt_loop b p i (w # ws) g = Inr (ok, b', p', g')"
      using tp r1 lp run by simp
    have cnt: "counts ?b1 DIAGONAL - int (diagonal_placements p1)
               = counts b DIAGONAL - int (diagonal_placements p)"
      using increment_diagonal(1) [OF d, of b] diagonal_placements_append [OF pl1]
      by (simp add: dir)
    have tw: "total_words ?b1 = total_words b"
      using increment_diagonal(2) [OF d, of b] by (simp add: dir)
    have "ok \<longrightarrow> map word (placements p') = map word (placements p) @ w # ws
                \<and> counts b' DIAGONAL - int (diagonal_placements p')
                    = counts b DIAGONAL - int (diagonal_placements p)"
      using ok' cnt pl1 wd by simp
    with step c' gs' gs1 ws' ws1 tw' tw show ?thesis
      by auto
  qed
qed

lemma range_length: "length (range n) = nat n"
  by (simp add: range_def)

lemma wf_grid_reset: "wf_grid (reset p)"
  by (simp add: wf_grid_def reset_def empty_grid_def range_length list_all_iff)

lemma cell_reset:
  assumes "is_valid_position p q"
  shows "cell (reset p) q = []"
proof -
  from assms have "nat (row q) < nat (grid_size p)" and "nat (col q) < nat (grid_size p)"
    by (simp_all add: is_valid_position_def)
  then show ?thesis
    by (simp add: cell_def reset_def empty_grid_def range_length)
qed

lemma consistent_reset: "consistent (reset p)"
proof -
  have "cell (reset p) q = []" if "is_valid_position (reset p) q" for q
  proof -
    from that have "is_valid_position p q"
      by (simp add: is_valid_position_def reset_def)
    then show ?thesis
      by (rule cell_reset)
  qed
  then show ?thesis
    using wf_grid_reset [of p] by (auto simp add: consistent_def reset_def)
qed

lemma attempt_placement_consistent:
  "\<exists>ok p' g'. attempt_placement (reset p) ws g = Inr (ok, p', g') \<and> consistent p'
      \<and> grid_size p' = grid_size p \<and> words p' = words p
      \<and> (ok \<longrightarrow> map word (placements p') = ws
               \<and> (\<exists>b. total_words b = int (length ws)
                       \<and> counts b DIAGONAL = int (diagonal_placements p')
                       \<and> has_sufficient_diagonal_coverage b))"
proof -
  let ?b = "DirectionBalancer (int (length ws))"
  from attempt_loop_consistent [OF consistent_reset, of ?b p 0 ws g]
  obtain ok b' p' g' where run: "attempt_loop ?b (reset p) 0 ws g = Inr (ok, b', p', g')"
    and c': "consistent p'" and gs': "grid_size p' = grid_size (reset p)"
    and ws': "words p' = words (reset p)" and tw': "total_words b' = total_words ?b"
    and ok': "ok \<longrightarrow> map word (placements p') = map word (placements (reset p)) @ ws
                  \<and> counts b' DIAGONAL - int (diagonal_placements p')
                      = counts ?b DIAGONAL - int (diagonal_placements (reset p))"
    by blast
  let ?ok = "ok \<and> has_sufficient_diagonal_coverage b'"
  have ap: "attempt_placement (reset p) ws g = Inr (?ok, p', g')"
    using run by (simp add: attempt_placement_def)
  have "map word (placements p') = ws
        \<and> (\<exists>b. total_words b = int (length ws)
                \<and> counts b DIAGONAL = int (diagonal_placements p')
                \<and> has_sufficient_diagonal_coverage b)" if "?ok"
  proof -
    from that ok' have m: "map word (placements p') = ws"
      and "counts b' DIAGONAL = int (diagonal_placements p')"
      by (simp_all add: reset_def DirectionBalancer_def diagonal_placements_def)
    moreover from tw' have "total_words b' = int (length ws)"
      by (simp add: DirectionBalancer_def)
    ultimately show ?thesis
      using that by blast
  qed
  with ap c' gs' ws' show ?thesis
    by (auto simp add: reset_def)
qed

section \<open>Filling the empty cells, and the attempts of generate\<close>

lemma set_range: "set (range n) = {i. 0 \<le> i \<and> i < n}"
proof -
  have "i \<in> int ` {0..<nat n} \<longleftrightarrow> 0 \<le> i \<and> i < n" for i
  proof
    assume "i \<in> int ` {0..<nat n}"
    then obtain k where "i = int k" and "k < nat n"
      by auto
    then show "0 \<le> i \<and> i < n"
      by simp
  next
    assume "0 \<le> i \<and> i < n"
    then have "i = int (nat i)" and "nat i \<in> {0..<nat n}"
      by simp_all
    then show "i \<in> int ` {0..<nat n}"
      by (rule image_eqI)
  qed
  then show ?thesis
    by (simp add: range_def set_eq_iff)
qed

lemma set_get_all_positions:
  "q \<in> set (get_all_positions p) \<longleftrightarrow> is_valid_position p q"
proof
  assume "q \<in> set (get_all_positions p)"
  then obtain r c where "r \<in> set (range (grid_size p))" and "c \<in> set (range (grid_size p))"
    and "q = \<lparr>row = r, col = c\<rparr>"
    by (auto simp add: get_all_positions_def)
  then show "is_valid_position p q"
    by (simp add: set_range is_valid_position_def)
next
  assume "is_valid_position p q"
  then have r: "row q \<in> set (range (grid_size p))" and c: "col q \<in> set (range (grid_size p))"
    by (simp_all add: set_range is_valid_position_def)
  have "q = \<lparr>row = row q, col = col q\<rparr>"
    by simp
  then have "q \<in> (\<lambda>c. \<lparr>row = row q, col = c\<rparr>) ` set (range (grid_size p))"
    using c by (rule image_eqI)
  then have "\<exists>r \<in> set (range (grid_size p)).
               q \<in> (\<lambda>c. \<lparr>row = r, col = c\<rparr>) ` set (range (grid_size p))"
    using r by (rule bexI)
  then show "q \<in> set (get_all_positions p)"
    by (simp add: get_all_positions_def)
qed

lemma choice_ascii_uppercase:
  "\<exists>l g'. choice ascii_uppercase g = Inr (l, g') \<and> l \<in> set ascii_uppercase"
proof -
  obtain k g' where r: "randbelow (length ascii_uppercase) g = (k, g')"
    by (cases "randbelow (length ascii_uppercase) g")
  have "fst (randbelow (length ascii_uppercase) g) < length ascii_uppercase"
    by (rule randbelow_less) (simp add: ascii_uppercase_def)
  with r have "k < length ascii_uppercase"
    by simp
  then have "ascii_uppercase ! k \<in> set ascii_uppercase"
    by (rule nth_mem)
  moreover have "ascii_uppercase \<noteq> []"
    by (simp add: ascii_uppercase_def)
  ultimately show ?thesis
    using r by (simp add: choice_def)
qed

lemma fill_cells_ok:
  assumes "wf_grid p" and "\<forall>pos \<in> set ps. is_valid_position p pos"
  shows "\<exists>p' g'. fill_cells p ps g = Inr (p', g') \<and> wf_grid p'
           \<and> grid_size p' = grid_size p \<and> words p' = words p
           \<and> placements p' = placements p
           \<and> (\<forall>q. is_valid_position p q \<and> cell p q = [] \<and> q \<in> set ps
                   \<longrightarrow> (\<exists>l \<in> set ascii_uppercase. cell p' q = [l]))
           \<and> (\<forall>q. is_valid_position p q \<and> (cell p q \<noteq> [] \<or> q \<notin> set ps)
                   \<longrightarrow> cell p' q = cell p q)"
  using assms
proof (induction ps arbitrary: p g)
  case Nil
  then show ?case by simp
next
  case (Cons pos ps)
  from Cons.prems have v: "is_valid_position p pos" and vs: "\<forall>q \<in> set ps. is_valid_position p q"
    by simp_all
  from Cons.prems(1) v have gc: "get_cell p pos = Inr (cell p pos)"
    by (rule get_cell_wf)
  show ?case
  proof (cases "cell p pos = []")
    case False
    from Cons.IH [OF Cons.prems(1) vs, of g]
    obtain p' g' where run: "fill_cells p ps g = Inr (p', g')" and w': "wf_grid p'"
      and gs': "grid_size p' = grid_size p" and ws': "words p' = words p"
      and pl': "placements p' = placements p"
      and f': "\<forall>q. is_valid_position p q \<and> cell p q = [] \<and> q \<in> set ps
                    \<longrightarrow> (\<exists>l \<in> set ascii_uppercase. cell p' q = [l])"
      and u': "\<forall>q. is_valid_position p q \<and> (cell p q \<noteq> [] \<or> q \<notin> set ps)
                    \<longrightarrow> cell p' q = cell p q"
      by blast
    have step: "fill_cells p (pos # ps) g = Inr (p', g')"
      using gc False run by simp
    have f: "\<forall>q. is_valid_position p q \<and> cell p q = [] \<and> q \<in> set (pos # ps)
                 \<longrightarrow> (\<exists>l \<in> set ascii_uppercase. cell p' q = [l])"
      using f' False by auto
    have u: "\<forall>q. is_valid_position p q \<and> (cell p q \<noteq> [] \<or> q \<notin> set (pos # ps))
                 \<longrightarrow> cell p' q = cell p q"
      using u' by auto
    from step w' gs' ws' pl' f u show ?thesis
      by blast
  next
    case True
    from choice_ascii_uppercase [of g] obtain l g1 where
      ch: "choice ascii_uppercase g = Inr (l, g1)" and l: "l \<in> set ascii_uppercase"
      by blast
    from set_cell_wf [OF Cons.prems(1) v, of "[l]"] obtain p1 where
      sc: "set_cell p pos [l] = Inr p1" and w1: "wf_grid p1"
      and gs1: "grid_size p1 = grid_size p" and pl1: "placements p1 = placements p"
      and ws1: "words p1 = words p"
      and c1: "\<forall>q. is_valid_position p q \<longrightarrow> cell p1 q = (if q = pos then [l] else cell p q)"
      by blast
    have vs1: "\<forall>q \<in> set ps. is_valid_position p1 q"
      using vs gs1 by (simp add: is_valid_position_def)
    from Cons.IH [OF w1 vs1, of g1]
    obtain p' g' where run: "fill_cells p1 ps g1 = Inr (p', g')" and w': "wf_grid p'"
      and gs': "grid_size p' = grid_size p1" and ws': "words p' = words p1"
      and pl': "placements p' = placements p1"
      and f': "\<forall>q. is_valid_position p1 q \<and> cell p1 q = [] \<and> q \<in> set ps
                    \<longrightarrow> (\<exists>l \<in> set ascii_uppercase. cell p' q = [l])"
      and u': "\<forall>q. is_valid_position p1 q \<and> (cell p1 q \<noteq> [] \<or> q \<notin> set ps)
                    \<longrightarrow> cell p' q = cell p1 q"
      by blast
    have step: "fill_cells p (pos # ps) g = Inr (p', g')"
      using gc True ch sc run by simp
    have same: "is_valid_position p1 q = is_valid_position p q" for q
      using gs1 by (simp add: is_valid_position_def)
    have f: "\<exists>l \<in> set ascii_uppercase. cell p' q = [l]"
      if q: "is_valid_position p q \<and> cell p q = [] \<and> q \<in> set (pos # ps)" for q
    proof (cases "q = pos")
      case True
      with c1 v have "cell p1 q = [l]"
        by simp
      moreover from this u' q same have "cell p' q = cell p1 q"
        by simp
      ultimately show ?thesis
        using l by auto
    next
      case False
      with c1 q have "cell p1 q = []" and "q \<in> set ps"
        by simp_all
      with f' q same show ?thesis
        by blast
    qed
    have u: "cell p' q = cell p q"
      if q: "is_valid_position p q \<and> (cell p q \<noteq> [] \<or> q \<notin> set (pos # ps))" for q
    proof -
      from q True have ne: "q \<noteq> pos"
        by auto
      with c1 q have e: "cell p1 q = cell p q"
        by simp
      with q ne have "cell p1 q \<noteq> [] \<or> q \<notin> set ps"
        by auto
      with u' q same have "cell p' q = cell p1 q"
        by blast
      with e show ?thesis
        by simp
    qed
    from step w' gs' gs1 ws' ws1 pl' pl1 f u show ?thesis
      by auto
  qed
qed

lemma fill_empty_cells_accepted:
  assumes "consistent p" and "mset (map word (placements p)) = mset sw"
    and "\<exists>b. total_words b = int (length sw)
             \<and> counts b DIAGONAL = int (diagonal_placements p)
             \<and> has_sufficient_diagonal_coverage b"
  shows "\<exists>p' g'. fill_empty_cells p g = Inr (p', g') \<and> accepted sw p'
           \<and> grid_size p' = grid_size p \<and> words p' = words p"
proof -
  from assms(1) have wf: "wf_grid p"
    and com: "\<forall>pl \<in> set (placements p). committed p pl"
    and cov: "\<forall>q. is_valid_position p q \<and> cell p q \<noteq> []
                   \<longrightarrow> (\<exists>pl \<in> set (placements p). q \<in> set (positions pl))"
    by (simp_all add: consistent_def)
  have vs: "\<forall>pos \<in> set (get_all_positions p). is_valid_position p pos"
    by (simp add: set_get_all_positions)
  from fill_cells_ok [OF wf vs, of g]
  obtain p' g' where run: "fill_cells p (get_all_positions p) g = Inr (p', g')"
    and w': "wf_grid p'" and gs': "grid_size p' = grid_size p" and ws': "words p' = words p"
    and pl': "placements p' = placements p"
    and f': "\<forall>q. is_valid_position p q \<and> cell p q = [] \<and> q \<in> set (get_all_positions p)
                  \<longrightarrow> (\<exists>l \<in> set ascii_uppercase. cell p' q = [l])"
    and u': "\<forall>q. is_valid_position p q \<and> (cell p q \<noteq> [] \<or> q \<notin> set (get_all_positions p))
                  \<longrightarrow> cell p' q = cell p q"
    by blast
  have same: "is_valid_position p' q = is_valid_position p q" for q
    using gs' by (simp add: is_valid_position_def)
  have com': "committed p' pl" if "pl \<in> set (placements p')" for pl
  proof -
    from that pl' com have c: "committed p pl"
      by simp
    have "is_valid_position p' (target (start_position pl) (direction pl) (int i))
          \<and> cell p' (target (start_position pl) (direction pl) (int i))
              = [word_value (word pl) ! i]"
      if i: "i < length (word_value (word pl))" for i
    proof -
      let ?q = "target (start_position pl) (direction pl) (int i)"
      from c i have v: "is_valid_position p ?q" and e: "cell p ?q = [word_value (word pl) ! i]"
        by (simp_all add: committed_def)
      from e have "cell p ?q \<noteq> []"
        by simp
      with v u' have "cell p' ?q = cell p ?q"
        by blast
      with v e same show ?thesis
        by simp
    qed
    with c show ?thesis
      by (simp add: committed_def)
  qed
  have full: "cell p' q \<noteq> []
              \<and> ((\<exists>pl \<in> set (placements p'). q \<in> set (positions pl))
                 \<or> (\<exists>l \<in> set ascii_uppercase. cell p' q = [l]))"
    if "is_valid_position p' q" for q
  proof -
    from that same have v: "is_valid_position p q"
      by simp
    show ?thesis
    proof (cases "cell p q = []")
      case True
      with v f' have "\<exists>l \<in> set ascii_uppercase. cell p' q = [l]"
        by (simp add: set_get_all_positions)
      then show ?thesis
        by auto
    next
      case False
      with v u' have "cell p' q = cell p q"
        by blast
      moreover from False v cov have "\<exists>pl \<in> set (placements p). q \<in> set (positions pl)"
        by blast
      ultimately show ?thesis
        using False pl' by simp
    qed
  qed
  have "diagonal_placements p' = diagonal_placements p"
    using pl' by (simp add: diagonal_placements_def)
  with assms(2,3) w' com' full pl' have "accepted sw p'"
    unfolding accepted_def by auto
  with run gs' ws' show ?thesis
    by (simp add: fill_empty_cells_def)
qed

lemma generate_loop_ok:
  "\<exists>ok p' g' k'. generate_loop n sw p g k = Inr (ok, p', g', k')
      \<and> k' \<le> k + n \<and> (\<not> ok \<longrightarrow> k' = k + n) \<and> (ok \<longrightarrow> k < k')
      \<and> grid_size p' = grid_size p \<and> words p' = words p
      \<and> (ok \<longrightarrow> accepted sw p')"
proof (induction n arbitrary: p g k)
  case 0
  show ?case by auto
next
  case (Suc n)
  obtain wtp g1 where sh: "shuffle sw g = (wtp, g1)"
    by (cases "shuffle sw g")
  then have ms: "mset wtp = mset sw" and len: "length wtp = length sw"
    using shuffle_mset [of sw g] shuffle_length [of sw g] by simp_all
  from attempt_placement_consistent [of p wtp g1]
  obtain ok p1 g2 where ap: "attempt_placement (reset p) wtp g1 = Inr (ok, p1, g2)"
    and c1: "consistent p1" and gs1: "grid_size p1 = grid_size p" and ws1: "words p1 = words p"
    and ok1: "ok \<longrightarrow> map word (placements p1) = wtp
                   \<and> (\<exists>b. total_words b = int (length wtp)
                           \<and> counts b DIAGONAL = int (diagonal_placements p1)
                           \<and> has_sufficient_diagonal_coverage b)"
    by blast
  show ?case
  proof (cases ok)
    case True
    with ok1 ms len have m: "mset (map word (placements p1)) = mset sw"
      and b: "\<exists>b. total_words b = int (length sw)
                  \<and> counts b DIAGONAL = int (diagonal_placements p1)
                  \<and> has_sufficient_diagonal_coverage b"
      by auto
    from fill_empty_cells_accepted [OF c1 m b, of g2]
    obtain p2 g3 where "fill_empty_cells p1 g2 = Inr (p2, g3)" and "accepted sw p2"
      and "grid_size p2 = grid_size p1" and "words p2 = words p1"
      by blast
    with sh ap True gs1 ws1 show ?thesis
      by auto
  next
    case False
    from Suc.IH [of p1 g2 "Suc k"]
    obtain ok' p' g' k' where "generate_loop n sw p1 g2 (Suc k) = Inr (ok', p', g', k')"
      and "k' \<le> Suc k + n" and "\<not> ok' \<longrightarrow> k' = Suc k + n" and "ok' \<longrightarrow> Suc k < k'"
      and "grid_size p' = grid_size p1" and "words p' = words p1"
      and "ok' \<longrightarrow> accepted sw p'"
      by blast
    with sh ap False gs1 ws1 show ?thesis
      by auto
  qed
qed

section \<open>The single-puzzle generator\<close>




lemma generate_ok:
  "\<exists>ok p' g' k. generate max_attempts p g = Inr (ok, p', g', k)
      \<and> k \<le> nat max_attempts \<and> (\<not> ok \<longrightarrow> k = nat max_attempts) \<and> (ok \<longrightarrow> 0 < k)
      \<and> grid_size p' = grid_size p \<and> words p' = words p
      \<and> (ok \<longrightarrow> accepted (sorted_words p) p')"
  using generate_loop_ok [of "nat max_attempts" "sorted_words p" p g 0]
  by (simp add: generate_def)

lemma generate_accepted:
  assumes "generate max_attempts p g = Inr (True, p', g', k)"
  shows "accepted (sorted_words p) p'" and "grid_size p' = grid_size p"
    and "words p' = words p"
  using generate_ok [of max_attempts p g] assms by auto








section \<open>Accepted puzzles: the placements\<close>

lemma committed_positions:
  assumes "committed p pl"
  shows "length (positions pl) = length (word_value (word pl))"
    and "i < length (positions pl) \<Longrightarrow>
         positions pl ! i = target (start_position pl) (direction pl) (int i)"
    and "i < length (positions pl) \<Longrightarrow> is_valid_position p (positions pl ! i)"
    and "i < length (positions pl) \<Longrightarrow> cell p (positions pl ! i) = [word_value (word pl) ! i]"
proof -
  from assms have ps: "positions pl
      = calculate_positions (word pl) (start_position pl) (direction pl)"
    by (simp add: committed_def)
  then show l: "length (positions pl) = length (word_value (word pl))"
    by (simp add: length_calculate_positions)
  show t: "positions pl ! i = target (start_position pl) (direction pl) (int i)"
    if "i < length (positions pl)"
    using that l ps by (simp add: nth_calculate_positions)
  show "is_valid_position p (positions pl ! i)" if "i < length (positions pl)"
    using that t l assms by (simp add: committed_def)
  show "cell p (positions pl ! i) = [word_value (word pl) ! i]" if "i < length (positions pl)"
    using that t l assms by (simp add: committed_def)
qed

text \<open>
  C7. In every puzzle that \<open>generate\<close> returns as accepted, every placement has as many
  positions as its word has characters; position \<open>i\<close> is \<open>start + i * delta\<close>, so that
  consecutive positions differ by the direction vector; every position is within
  \<open>[0, grid_size)\<close> in both coordinates; and where two placements share a cell they
  put the same character there.
\<close>

theorem accepted_placements_well_formed:
  assumes "generate max_attempts p g = Inr (True, p', g', k)"
  shows "(\<forall>pl \<in> set (placements p').
            length (positions pl) = length (word_value (word pl))
            \<and> (\<forall>i < length (positions pl).
                  positions pl ! i = target (start_position pl) (direction pl) (int i)
                  \<and> 0 \<le> row (positions pl ! i) \<and> row (positions pl ! i) < grid_size p
                  \<and> 0 \<le> col (positions pl ! i) \<and> col (positions pl ! i) < grid_size p)
            \<and> (\<forall>i. Suc i < length (positions pl) \<longrightarrow>
                  row (positions pl ! Suc i) = row (positions pl ! i) + row_delta (direction pl)
                  \<and> col (positions pl ! Suc i) = col (positions pl ! i) + col_delta (direction pl)))
       \<and> (\<forall>pl1 \<in> set (placements p'). \<forall>pl2 \<in> set (placements p').
            \<forall>i < length (positions pl1). \<forall>j < length (positions pl2).
              positions pl1 ! i = positions pl2 ! j
              \<longrightarrow> word_value (word pl1) ! i = word_value (word pl2) ! j)"
proof -
  from generate_accepted [OF assms] have acc: "accepted (sorted_words p) p'"
    and gs: "grid_size p' = grid_size p"
    by simp_all
  then have com: "\<forall>pl \<in> set (placements p'). committed p' pl"
    by (simp add: accepted_def)
  have one: "length (positions pl) = length (word_value (word pl))
             \<and> (\<forall>i < length (positions pl).
                   positions pl ! i = target (start_position pl) (direction pl) (int i)
                   \<and> 0 \<le> row (positions pl ! i) \<and> row (positions pl ! i) < grid_size p
                   \<and> 0 \<le> col (positions pl ! i) \<and> col (positions pl ! i) < grid_size p)
             \<and> (\<forall>i. Suc i < length (positions pl) \<longrightarrow>
                   row (positions pl ! Suc i) = row (positions pl ! i) + row_delta (direction pl)
                   \<and> col (positions pl ! Suc i) = col (positions pl ! i) + col_delta (direction pl))"
    if "pl \<in> set (placements p')" for pl
  proof -
    from that com have c: "committed p' pl"
      by blast
    have a: "positions pl ! i = target (start_position pl) (direction pl) (int i)
             \<and> 0 \<le> row (positions pl ! i) \<and> row (positions pl ! i) < grid_size p
             \<and> 0 \<le> col (positions pl ! i) \<and> col (positions pl ! i) < grid_size p"
      if "i < length (positions pl)" for i
      using committed_positions(2,3) [OF c that] gs by (simp add: is_valid_position_def)
    have b: "row (positions pl ! Suc i) = row (positions pl ! i) + row_delta (direction pl)
             \<and> col (positions pl ! Suc i) = col (positions pl ! i) + col_delta (direction pl)"
      if "Suc i < length (positions pl)" for i
    proof -
      from that have "i < length (positions pl)"
        by simp
      with that committed_positions(2) [OF c] show ?thesis
        by (simp add: target_def algebra_simps)
    qed
    from committed_positions(1) [OF c] a b show ?thesis
      by blast
  qed
  have two: "word_value (word pl1) ! i = word_value (word pl2) ! j"
    if "pl1 \<in> set (placements p')" and "pl2 \<in> set (placements p')"
      and "i < length (positions pl1)" and "j < length (positions pl2)"
      and "positions pl1 ! i = positions pl2 ! j" for pl1 pl2 i j
  proof -
    from that com have c1: "committed p' pl1" and c2: "committed p' pl2"
      by blast+
    from committed_positions(4) [OF c1 that(3)] committed_positions(4) [OF c2 that(4)] that(5)
    show ?thesis
      by simp
  qed
  from one two show ?thesis
    by blast
qed

theorem accepted_placements_well_formed_witness:
  "generate default_max_attempts (Puzzle 5 [CAT, DOG]) tape_diagonal_first
     = Inr (True,
            \<lparr>grid_size = 5, words = [CAT, DOG],
             placements = [WordPlacement DOG \<lparr>row = 2, col = 2\<rparr> DIAGONAL_UP_LEFT,
                           WordPlacement CAT \<lparr>row = 2, col = 3\<rparr> VERTICAL_UP],
             grid = [[''G'', ''A'', ''A'', ''T'', ''A''],
                     [''A'', ''O'', ''A'', ''A'', ''A''],
                     [''A'', ''A'', ''D'', ''C'', ''A''],
                     [''A'', ''A'', ''A'', ''A'', ''A''],
                     [''A'', ''A'', ''A'', ''A'', ''A'']]\<rparr>,
            [], 1)
   \<and> length (positions (WordPlacement DOG \<lparr>row = 2, col = 2\<rparr> DIAGONAL_UP_LEFT))
       = length (word_value (word (WordPlacement DOG \<lparr>row = 2, col = 2\<rparr> DIAGONAL_UP_LEFT)))
   \<and> positions (WordPlacement CAT \<lparr>row = 2, col = 3\<rparr> VERTICAL_UP)
       = [\<lparr>row = 2, col = 3\<rparr>, \<lparr>row = 1, col = 3\<rparr>, \<lparr>row = 0, col = 3\<rparr>]"
proof -
  let ?d = "WordPlacement DOG \<lparr>row = 2, col = 2\<rparr> DIAGONAL_UP_LEFT"
  let ?c = "WordPlacement CAT \<lparr>row = 2, col = 3\<rparr> VERTICAL_UP"
  let ?p = "\<lparr>grid_size = 5, words = [CAT, DOG], placements = [?d, ?c],
             grid = [[''G'', ''A'', ''A'', ''T'', ''A''],
                     [''A'', ''O'', ''A'', ''A'', ''A''],
                     [''A'', ''A'', ''D'', ''C'', ''A''],
                     [''A'', ''A'', ''A'', ''A'', ''A''],
                     [''A'', ''A'', ''A'', ''A'', ''A'']]\<rparr>"
  have run: "generate default_max_attempts (Puzzle 5 [CAT, DOG]) tape_diagonal_first
             = Inr (True, ?p, [], 1)"
    by code_simp
  from accepted_placements_well_formed [OF run]
  have "length (positions ?d) = length (word_value (word ?d))"
    by simp
  moreover have "positions ?c = [\<lparr>row = 2, col = 3\<rparr>, \<lparr>row = 1, col = 3\<rparr>, \<lparr>row = 0, col = 3\<rparr>]"
    by code_simp
  ultimately show ?thesis
    using run by simp
qed

section \<open>Accepted puzzles: one placement per requested word\<close>

lemma accepted_words:
  assumes "generate max_attempts p g = Inr (True, p', g', k)"
  shows "mset (map word (placements p')) = mset (words p)"
proof -
  from generate_accepted(1) [OF assms]
  have "mset (map word (placements p')) = mset (sorted_words p)"
    by (simp add: accepted_def)
  then show ?thesis
    by (simp add: sorted_words_def)
qed

text \<open>
  C8, as the code has it. In every puzzle that \<open>generate\<close> returns as accepted, the
  placements are the requested words, one placement per entry of the word list (equal
  as multisets, so the list of placements is as long as the word list). A word value
  that the list holds twice is placed twice; when the values of the list are distinct,
  no word value appears in two placements.
\<close>

theorem accepted_one_placement_per_word:
  assumes "generate max_attempts p g = Inr (True, p', g', k)"
  shows "mset (map word (placements p')) = mset (words p)
         \<and> length (placements p') = length (words p)
         \<and> (distinct (map word_value (words p))
              \<longrightarrow> distinct (map (\<lambda>pl. word_value (word pl)) (placements p')))"
proof -
  from accepted_words [OF assms] have m: "mset (map word (placements p')) = mset (words p)" .
  then have "size (mset (map word (placements p'))) = size (mset (words p))"
    by simp
  then have l: "length (placements p') = length (words p)"
    by simp
  have e: "map (\<lambda>pl. word_value (word pl)) (placements p')
           = map word_value (map word (placements p'))"
    by simp
  from m have "mset (map word_value (map word (placements p')))
               = mset (map word_value (words p))"
    by (metis mset_map)
  then have "mset (map (\<lambda>pl. word_value (word pl)) (placements p'))
             = mset (map word_value (words p))"
    by (simp only: e)
  then have "distinct (map (\<lambda>pl. word_value (word pl)) (placements p'))
             = distinct (map word_value (words p))"
    by (rule mset_eq_imp_distinct_iff)
  with m l show ?thesis
    by simp
qed

text \<open>
  The claim C8 as stated fails: the words CAT, CAT are a non-empty sequence of non-empty
  words, \<open>generate\<close> accepts a puzzle for them, and the value CAT is in two placements.
\<close>

theorem repeated_word_counterexample:
  "generate default_max_attempts (Puzzle 5 [CAT, CAT]) tape_diagonal_first
     = Inr (True,
            \<lparr>grid_size = 5, words = [CAT, CAT],
             placements = [WordPlacement CAT \<lparr>row = 2, col = 2\<rparr> DIAGONAL_UP_LEFT,
                           WordPlacement CAT \<lparr>row = 2, col = 0\<rparr> VERTICAL_UP],
             grid = [[''T'', ''A'', ''A'', ''A'', ''A''],
                     [''A'', ''A'', ''A'', ''A'', ''A''],
                     [''C'', ''A'', ''C'', ''A'', ''A''],
                     [''A'', ''A'', ''A'', ''A'', ''A''],
                     [''A'', ''A'', ''A'', ''A'', ''A'']]\<rparr>,
            [], 1)"
  by code_simp

theorem accepted_one_placement_per_word_witness:
  "generate default_max_attempts (Puzzle 5 [CAT, DOG]) tape_diagonal_first
     = Inr (True,
            \<lparr>grid_size = 5, words = [CAT, DOG],
             placements = [WordPlacement DOG \<lparr>row = 2, col = 2\<rparr> DIAGONAL_UP_LEFT,
                           WordPlacement CAT \<lparr>row = 2, col = 3\<rparr> VERTICAL_UP],
             grid = [[''G'', ''A'', ''A'', ''T'', ''A''],
                     [''A'', ''O'', ''A'', ''A'', ''A''],
                     [''A'', ''A'', ''D'', ''C'', ''A''],
                     [''A'', ''A'', ''A'', ''A'', ''A''],
                     [''A'', ''A'', ''A'', ''A'', ''A'']]\<rparr>,
            [], 1)
   \<and> mset [DOG, CAT] = mset [CAT, DOG]
   \<and> distinct [''DOG'', ''CAT'']"
proof -
  let ?d = "WordPlacement DOG \<lparr>row = 2, col = 2\<rparr> DIAGONAL_UP_LEFT"
  let ?c = "WordPlacement CAT \<lparr>row = 2, col = 3\<rparr> VERTICAL_UP"
  let ?p = "\<lparr>grid_size = 5, words = [CAT, DOG], placements = [?d, ?c],
             grid = [[''G'', ''A'', ''A'', ''T'', ''A''],
                     [''A'', ''O'', ''A'', ''A'', ''A''],
                     [''A'', ''A'', ''D'', ''C'', ''A''],
                     [''A'', ''A'', ''A'', ''A'', ''A''],
                     [''A'', ''A'', ''A'', ''A'', ''A'']]\<rparr>"
  have run: "generate default_max_attempts (Puzzle 5 [CAT, DOG]) tape_diagonal_first
             = Inr (True, ?p, [], 1)"
    by code_simp
  have d: "distinct (map word_value (words (Puzzle 5 [CAT, DOG])))"
    by code_simp
  from accepted_one_placement_per_word [OF run] d
  have "mset (map word (placements ?p)) = mset (words (Puzzle 5 [CAT, DOG]))"
    and "distinct (map (\<lambda>pl. word_value (word pl)) (placements ?p))"
    by simp_all
  then have "mset [DOG, CAT] = mset [CAT, DOG]" and "distinct [''DOG'', ''CAT'']"
    by (simp_all add: WordPlacement_def Puzzle_def DOG_def CAT_def)
  with run show ?thesis
    by simp
qed

section \<open>The multi-puzzle orchestrator\<close>

lemma generate_puzzles_loop_ok:
  "\<exists>ps' g' calls'. generate_puzzles_loop a m cnt n ws ps g calls = Inr (ps', g', calls')
      \<and> length calls' \<le> length calls + a
      \<and> length ps' + length (filter id calls) = length ps + length (filter id calls')
      \<and> (int (length ps') < cnt \<longrightarrow> length calls' = length calls + a)
      \<and> (int (length ps) \<le> max cnt 0 \<longrightarrow> int (length ps') \<le> max cnt 0)
      \<and> (int (length ps) < cnt \<and> cnt \<le> int (length ps') \<longrightarrow> calls' \<noteq> [] \<and> last calls')"
proof (induction a arbitrary: ps g calls)
  case 0
  show ?case by auto
next
  case (Suc a)
  show ?case
  proof (cases "int (length ps) \<ge> cnt")
    case True
    then show ?thesis
      by auto
  next
    case False
    from generate_ok [of m "Puzzle n ws" g]
    obtain ok p' g1 k where run: "generate m (Puzzle n ws) g = Inr (ok, p', g1, k)"
      by blast
    let ?ps = "if ok then ps @ [p'] else ps"
    from Suc.IH [of ?ps g1 "calls @ [ok]"]
    obtain ps' g' calls' where
      r: "generate_puzzles_loop a m cnt n ws ?ps g1 (calls @ [ok]) = Inr (ps', g', calls')"
      and l: "length calls' \<le> length (calls @ [ok]) + a"
      and s: "length ps' + length (filter id (calls @ [ok]))
              = length ?ps + length (filter id calls')"
      and e: "int (length ps') < cnt \<longrightarrow> length calls' = length (calls @ [ok]) + a"
      and b: "int (length ?ps) \<le> max cnt 0 \<longrightarrow> int (length ps') \<le> max cnt 0"
      and f: "int (length ?ps) < cnt \<and> cnt \<le> int (length ps')
              \<longrightarrow> calls' \<noteq> [] \<and> last calls'"
      by blast
    have step: "generate_puzzles_loop (Suc a) m cnt n ws ps g calls = Inr (ps', g', calls')"
      using False run r by simp
    have l': "length calls' \<le> length calls + Suc a"
      using l by simp
    have s': "length ps' + length (filter id calls) = length ps + length (filter id calls')"
      using s by (cases ok) simp_all
    have e': "int (length ps') < cnt \<longrightarrow> length calls' = length calls + Suc a"
      using e by simp
    have b': "int (length ps) \<le> max cnt 0 \<longrightarrow> int (length ps') \<le> max cnt 0"
      using b False by (cases ok) auto
    have f': "calls' \<noteq> [] \<and> last calls'"
      if "int (length ps) < cnt \<and> cnt \<le> int (length ps')"
    proof (cases "int (length ?ps) < cnt")
      case True
      with that f show ?thesis
        by simp
    next
      case False
      with that have ok: ok and full: "int (length ?ps) \<ge> cnt"
        by (auto split: if_splits)
      have "generate_puzzles_loop a m cnt n ws ?ps g1 (calls @ [ok]) = Inr (?ps, g1, calls @ [ok])"
        using full by (cases a) simp_all
      with r have "calls' = calls @ [ok]"
        by simp
      with ok show ?thesis
        by simp
    qed
    from step l' s' e' b' f' show ?thesis
      by blast
  qed
qed

text \<open>
  C5. For every requested count, \<open>_generate_puzzles\<close> raises nothing and returns a
  list of puzzles. It calls the single-puzzle generator at most \<open>count * 10\<close> times;
  the list holds one puzzle per successful call; it never holds more than \<open>count\<close>
  puzzles, and when it holds \<open>count\<close> the last call made is the successful one that
  completed it (no call follows); when it holds fewer than \<open>count\<close>, all
  \<open>count * 10\<close> calls were made.
\<close>

theorem generate_puzzles_budget:
  "\<exists>ps g' calls. generate_puzzles strategy_max_attempts n ws cnt g = Inr (ps, g', calls)
      \<and> length calls \<le> nat (cnt * 10)
      \<and> length ps = length (filter id calls)
      \<and> int (length ps) \<le> max cnt 0
      \<and> (0 < cnt \<and> int (length ps) = cnt \<longrightarrow> calls \<noteq> [] \<and> last calls)
      \<and> (int (length ps) < cnt \<longrightarrow> length calls = nat (cnt * 10))"
proof -
  from generate_puzzles_loop_ok [of "nat (cnt * 10)" strategy_max_attempts cnt n ws "[]" g "[]"]
  obtain ps g' calls where
    "generate_puzzles_loop (nat (cnt * 10)) strategy_max_attempts cnt n ws [] g []
       = Inr (ps, g', calls)"
    and "length calls \<le> length ([] :: bool list) + nat (cnt * 10)"
    and "length ps + length (filter id ([] :: bool list))
         = length ([] :: puzzle list) + length (filter id calls)"
    and "int (length ps) < cnt \<longrightarrow> length calls = length ([] :: bool list) + nat (cnt * 10)"
    and "int (length ([] :: puzzle list)) \<le> max cnt 0 \<longrightarrow> int (length ps) \<le> max cnt 0"
    and "int (length ([] :: puzzle list)) < cnt \<and> cnt \<le> int (length ps)
         \<longrightarrow> calls \<noteq> [] \<and> last calls"
    by blast
  then show ?thesis
    by (auto simp add: generate_puzzles_def)
qed

theorem generate_puzzles_budget_witness:
  "generate_puzzles 1 5 [CAT, DOG] 1 tape_diagonal_first
     = Inr ([\<lparr>grid_size = 5, words = [CAT, DOG],
              placements = [WordPlacement DOG \<lparr>row = 2, col = 2\<rparr> DIAGONAL_UP_LEFT,
                            WordPlacement CAT \<lparr>row = 2, col = 3\<rparr> VERTICAL_UP],
              grid = [[''G'', ''A'', ''A'', ''T'', ''A''],
                      [''A'', ''O'', ''A'', ''A'', ''A''],
                      [''A'', ''A'', ''D'', ''C'', ''A''],
                      [''A'', ''A'', ''A'', ''A'', ''A''],
                      [''A'', ''A'', ''A'', ''A'', ''A'']]\<rparr>], [], [True])
   \<and> (\<exists>g'. generate_puzzles 1 5 [CAT, DOG] 1 [] = Inr ([], g', replicate 10 False))"
proof -
  let ?p = "\<lparr>grid_size = 5, words = [CAT, DOG],
             placements = [WordPlacement DOG \<lparr>row = 2, col = 2\<rparr> DIAGONAL_UP_LEFT,
                           WordPlacement CAT \<lparr>row = 2, col = 3\<rparr> VERTICAL_UP],
             grid = [[''G'', ''A'', ''A'', ''T'', ''A''],
                     [''A'', ''O'', ''A'', ''A'', ''A''],
                     [''A'', ''A'', ''D'', ''C'', ''A''],
                     [''A'', ''A'', ''A'', ''A'', ''A''],
                     [''A'', ''A'', ''A'', ''A'', ''A'']]\<rparr>"
  have a: "generate_puzzles 1 5 [CAT, DOG] 1 tape_diagonal_first = Inr ([?p], [], [True])"
    by code_simp
  have c: "fst (snd (projr (generate_puzzles 1 5 [CAT, DOG] 1 []))) = []
           \<and> snd (snd (projr (generate_puzzles 1 5 [CAT, DOG] 1 []))) = replicate 10 False
           \<and> fst (projr (generate_puzzles 1 5 [CAT, DOG] 1 [])) = []"
    by code_simp
  from generate_puzzles_budget [of 1 5 "[CAT, DOG]" 1 "[]"] c
  have b: "\<exists>g'. generate_puzzles 1 5 [CAT, DOG] 1 [] = Inr ([], g', replicate 10 False)"
    by auto
  from a b show ?thesis
    by simp
qed

section \<open>The priority of the categories\<close>

text \<open>
  C1 on the code. The first word of an attempt with three words: the balancer puts the
  diagonal directions first, and a diagonal placement is possible on the empty grid
  (from the origin, down and to the right). \<open>try_place_word\<close> receives the three
  categories as one list and shuffles it; with the draws of \<open>tape_fifth_first\<close> a
  horizontal direction comes first and the word is committed horizontally.
\<close>

theorem priority_order_lost_in_shuffle:
  "get_priority_directions (DirectionBalancer 3) 0 = diagonal @ horizontal @ vertical
   \<and> can_place_word (reset (Puzzle 5 [CAT, DOG, SUN])) CAT origin DIAGONAL_DOWN_RIGHT = Inr True
   \<and> snd (try_place_word (reset (Puzzle 5 [CAT, DOG, SUN])) CAT
            (get_priority_directions (DirectionBalancer 3) 0) tape_fifth_first)
       = Inr (True,
              \<lparr>grid_size = 5, words = [CAT, DOG, SUN],
               placements = [WordPlacement CAT \<lparr>row = 0, col = 1\<rparr> HORIZONTAL_RIGHT],
               grid = [[[], ''C'', ''A'', ''T'', []], [[], [], [], [], []],
                       [[], [], [], [], []], [[], [], [], [], []], [[], [], [], [], []]]\<rparr>,
              [])"
  by code_simp

section \<open>The diagonal gate\<close>

lemma round_half_even_shift_cases:
  "round_half_even_shift x e = x div 2 ^ e \<or> round_half_even_shift x e = x div 2 ^ e + 1"
  by (simp add: round_half_even_shift_def Let_def)

lemma round_half_even_shift_le:
  assumes "2 * x < 2 * (D * 2 ^ e) + 2 ^ e"
  shows "round_half_even_shift x e \<le> D"
proof -
  define u :: int where "u = 2 ^ e"
  define q where "q = x div u"
  define r where "r = x mod u"
  have u: "0 < u"
    by (simp add: u_def)
  have x: "x = q * u + r"
    by (simp add: q_def r_def)
  have r: "0 \<le> r" "r < u"
    using u by (simp_all add: r_def)
  have a: "2 * (q * u) + 2 * r < 2 * (D * u) + u"
    using assms x by (simp add: u_def)
  have qD: "q \<le> D"
  proof (rule ccontr)
    assume "\<not> q \<le> D"
    then have "D + 1 \<le> q"
      by simp
    then have "(D + 1) * u \<le> q * u"
      using u by (simp add: mult_right_mono)
    then have "D * u + u \<le> q * u"
      by (simp add: algebra_simps)
    with a r u show False
      by linarith
  qed
  show ?thesis
  proof (cases "q = D")
    case True
    with a have "2 * r < u"
      by simp
    then have "round_half_even_shift x e = q"
      by (simp add: round_half_even_shift_def Let_def q_def r_def u_def)
    with True show ?thesis
      by simp
  next
    case False
    with qD have "q + 1 \<le> D"
      by simp
    with round_half_even_shift_cases [of x e] show ?thesis
      by (auto simp add: q_def u_def)
  qed
qed

lemma round_half_even_shift_gt:
  assumes "2 * (D * 2 ^ e) + 2 ^ e < 2 * x"
  shows "D < round_half_even_shift x e"
proof -
  define u :: int where "u = 2 ^ e"
  define q where "q = x div u"
  define r where "r = x mod u"
  have u: "0 < u"
    by (simp add: u_def)
  have x: "x = q * u + r"
    by (simp add: q_def r_def)
  have r: "0 \<le> r" "r < u"
    using u by (simp_all add: r_def)
  have a: "2 * (D * u) + u < 2 * (q * u) + 2 * r"
    using assms x by (simp add: u_def)
  have qD: "D \<le> q"
  proof (rule ccontr)
    assume "\<not> D \<le> q"
    then have "q + 1 \<le> D"
      by simp
    then have "(q + 1) * u \<le> D * u"
      using u by (simp add: mult_right_mono)
    then have "q * u + u \<le> D * u"
      by (simp add: algebra_simps)
    with a r u show False
      by linarith
  qed
  show ?thesis
  proof (cases "q = D")
    case True
    with a have "u < 2 * r"
      by simp
    then have "round_half_even_shift x e = q + 1"
      by (simp add: round_half_even_shift_def Let_def q_def r_def u_def)
    with True show ?thesis
      by simp
  next
    case False
    with qD have "D < q"
      by simp
    with round_half_even_shift_cases [of x e] show ?thesis
      by (auto simp add: q_def u_def)
  qed
qed

lemma round_to_double_exact:
  assumes "0 \<le> n" and "n < 2 ^ 53"
  shows "round_to_double n = (n, 0)"
proof -
  from assms(2) have "bitlen n \<le> 53"
    by (simp add: bitlen_le_iff_power)
  then have "nat (bitlen n - 53) = 0"
    by simp
  then show ?thesis
    by (simp add: round_to_double_def round_half_even_shift_def Let_def)
qed

lemma times_0_2_gate:
  assumes "0 \<le> n" and "n < 2 ^ 53"
  shows "(case times_0_2 n of (m, e) \<Rightarrow> m * 2 ^ e \<le> d * 2 ^ 54) \<longleftrightarrow> n \<le> 5 * d"
proof -
  define P where "P = n * double_0_2_mantissa"
  define e where "e = nat (bitlen P - 53)"
  define u :: int where "u = 2 ^ e"
  define c :: int where "c = 2 ^ (54 - e)"
  define m where "m = round_half_even_shift P e"
  have r1: "round_to_double n = (n, 0)"
    using assms by (rule round_to_double_exact)
  have "times_0_2 n = (case round_to_double P of (m2, e2) \<Rightarrow> (m2, e2))"
    by (simp add: times_0_2_def r1 P_def)
  then have t: "times_0_2 n = (m, e)"
    by (simp add: round_to_double_def Let_def e_def m_def)
  have P0: "0 \<le> P"
    using assms(1) by (simp add: P_def double_0_2_mantissa_def)
  have five: "5 * P = n * 2 ^ 54 + n"
    by (simp add: P_def double_0_2_mantissa_def)
  have "n * double_0_2_mantissa \<le> 2 ^ 53 * double_0_2_mantissa"
    using assms(2) by (simp add: mult_right_mono double_0_2_mantissa_def)
  also have "\<dots> < 2 ^ 105"
    by (simp add: double_0_2_mantissa_def)
  finally have "P < 2 ^ 105"
    by (simp add: P_def)
  then have "bitlen P \<le> 105"
    by (simp add: bitlen_le_iff_power)
  then have e52: "e \<le> 52"
    by (simp add: e_def)
  have u: "0 < u"
    by (simp add: u_def)
  have "c * u = 2 ^ (54 - e + e)"
    by (simp only: c_def u_def power_add)
  with e52 have cu: "c * u = 2 ^ 54"
    by simp
  have "(2::int) ^ 2 \<le> 2 ^ (54 - e)"
    using e52 by (intro power_increasing) simp_all
  then have c4: "4 \<le> c"
    by (simp add: c_def)
  have Pu: "P < 2 ^ 53 * u"
  proof (cases "P = 0")
    case True
    with u show ?thesis
      by simp
  next
    case False
    with P0 have "0 < P"
      by simp
    then have "P < 2 ^ nat (bitlen P)"
      using bitlen_bounds [of P] by simp
    also have "(2::int) ^ nat (bitlen P) \<le> 2 ^ (53 + e)"
      by (intro power_increasing) (simp_all add: e_def)
    also have "(2::int) ^ (53 + e) = 2 ^ 53 * u"
      by (simp only: u_def power_add)
    finally show ?thesis .
  qed
  have n5u: "2 * n < 5 * u"
  proof -
    from five assms(1) have "n * 2 ^ 54 \<le> 5 * P"
      by simp
    also from Pu have "5 * P < 5 * (2 ^ 53 * u)"
      by simp
    finally show ?thesis
      by simp
  qed
  define D where "D = d * c"
  have Du: "d * 2 ^ 54 = D * u"
    using cu by (simp add: D_def mult.assoc)
  have gate: "(m * u \<le> D * u) = (m \<le> D)"
    using u by simp
  have ncu: "5 * P = n * (c * u) + n"
    using five cu by simp
  have "m \<le> D \<longleftrightarrow> n \<le> 5 * d"
  proof
    assume "n \<le> 5 * d"
    then have "n * (c * u) \<le> (5 * d) * (c * u)"
      using u c4 by (intro mult_right_mono) simp_all
    then have "n * (c * u) \<le> 5 * (D * u)"
      by (simp add: D_def algebra_simps)
    with ncu n5u have "2 * P < 2 * (D * u) + u"
      by linarith
    then show "m \<le> D"
      unfolding m_def u_def by (rule round_half_even_shift_le)
  next
    assume le: "m \<le> D"
    show "n \<le> 5 * d"
    proof (rule ccontr)
      assume "\<not> n \<le> 5 * d"
      then have "5 * d + 1 \<le> n"
        by simp
      then have "(5 * d + 1) * (c * u) \<le> n * (c * u)"
        using u c4 by (intro mult_right_mono) simp_all
      then have "5 * (D * u) + c * u \<le> n * (c * u)"
        by (simp add: D_def algebra_simps)
      moreover have "4 * u \<le> c * u"
        using c4 u by (intro mult_right_mono) simp_all
      ultimately have "2 * (D * u) + u < 2 * P"
        using ncu assms(1) u by linarith
      then have "D < m"
        unfolding m_def u_def by (rule round_half_even_shift_gt)
      with le show False
        by simp
    qed
  qed
  with t gate Du show ?thesis
    by (simp add: u_def)
qed

lemma gate_exact:
  assumes "0 \<le> total_words b" and "total_words b < 2 ^ 53"
  shows "has_sufficient_diagonal_coverage b \<longleftrightarrow> total_words b \<le> 5 * counts b DIAGONAL"
proof -
  from assms(1) have "\<bar>total_words b\<bar> = total_words b"
    by simp
  with times_0_2_gate [OF assms, of "counts b DIAGONAL"] assms(1) show ?thesis
    by (simp add: has_sufficient_diagonal_coverage_def split: prod.splits)
qed

text \<open>
  C2. For a balancer of between 0 and \<open>2^53\<close> words (where the conversion of
  \<open>total_words\<close> to a double is exact), the gate computed in double precision,
  \<open>diagonal_count >= total_words * 0.2\<close>, holds exactly when
  \<open>diagonal_count \<ge> total_words * 0.2\<close> holds of the real numbers. Consequently, in
  every puzzle that \<open>generate\<close> returns as accepted, the number of placements whose
  direction is diagonal is at least \<open>ceil(0.2 * word_count)\<close>.
\<close>

theorem diagonal_coverage_law:
  "(0 \<le> total_words b \<and> total_words b < 2 ^ 53 \<longrightarrow>
      has_sufficient_diagonal_coverage b
      = (real_of_int (total_words b) * 0.2 \<le> real_of_int (counts b DIAGONAL)))
   \<and> (generate max_attempts p g = Inr (True, p', g', k) \<and> length (words p) < 2 ^ 53 \<longrightarrow>
      \<lceil>0.2 * real (length (words p))\<rceil> \<le> int (diagonal_placements p'))"
proof (intro conjI impI)
  assume "0 \<le> total_words b \<and> total_words b < 2 ^ 53"
  then have "has_sufficient_diagonal_coverage b = (total_words b \<le> 5 * counts b DIAGONAL)"
    using gate_exact [of b] by simp
  also have "\<dots> = (real_of_int (total_words b) \<le> real_of_int (5 * counts b DIAGONAL))"
    by (simp only: of_int_le_iff)
  also have "\<dots> = (real_of_int (total_words b) * 0.2 \<le> real_of_int (counts b DIAGONAL))"
    by (simp add: field_simps)
  finally show "has_sufficient_diagonal_coverage b
      = (real_of_int (total_words b) * 0.2 \<le> real_of_int (counts b DIAGONAL))" .
next
  assume a: "generate max_attempts p g = Inr (True, p', g', k) \<and> length (words p) < 2 ^ 53"
  then have run: "generate max_attempts p g = Inr (True, p', g', k)"
    by simp
  from generate_accepted(1) [OF run] obtain b where
    tw: "total_words b = int (length (sorted_words p))"
    and cd: "counts b DIAGONAL = int (diagonal_placements p')"
    and gate: "has_sufficient_diagonal_coverage b"
    by (auto simp add: accepted_def)
  have len: "length (sorted_words p) = length (words p)"
    by (simp add: sorted_words_def)
  from a have "int (length (words p)) < 2 ^ 53"
    by (metis of_nat_less_iff of_nat_numeral of_nat_power)
  with tw len have "0 \<le> total_words b" and "total_words b < 2 ^ 53"
    by simp_all
  with gate have "total_words b \<le> 5 * counts b DIAGONAL"
    using gate_exact [of b] by simp
  with tw len cd have "int (length (words p)) \<le> 5 * int (diagonal_placements p')"
    by simp
  then have "real (length (words p)) \<le> 5 * real (diagonal_placements p')"
    by (metis of_int_le_iff of_int_mult of_int_numeral of_int_of_nat_eq)
  then have "0.2 * real (length (words p)) \<le> real_of_int (int (diagonal_placements p'))"
    by simp
  then show "\<lceil>0.2 * real (length (words p))\<rceil> \<le> int (diagonal_placements p')"
    by (simp only: ceiling_le_iff)
qed

theorem diagonal_coverage_law_witness:
  "has_sufficient_diagonal_coverage \<lparr>total_words = 15, counts = (\<lambda>_. 3)\<rparr>
   \<and> \<not> has_sufficient_diagonal_coverage \<lparr>total_words = 16, counts = (\<lambda>_. 3)\<rparr>
   \<and> generate default_max_attempts (Puzzle 5 [CAT, DOG]) tape_diagonal_first
     = Inr (True,
            \<lparr>grid_size = 5, words = [CAT, DOG],
             placements = [WordPlacement DOG \<lparr>row = 2, col = 2\<rparr> DIAGONAL_UP_LEFT,
                           WordPlacement CAT \<lparr>row = 2, col = 3\<rparr> VERTICAL_UP],
             grid = [[''G'', ''A'', ''A'', ''T'', ''A''],
                     [''A'', ''O'', ''A'', ''A'', ''A''],
                     [''A'', ''A'', ''D'', ''C'', ''A''],
                     [''A'', ''A'', ''A'', ''A'', ''A''],
                     [''A'', ''A'', ''A'', ''A'', ''A'']]\<rparr>,
            [], 1)
   \<and> \<lceil>0.2 * real (length [CAT, DOG])\<rceil> = 1
   \<and> 1 \<le> diagonal_placements
            \<lparr>grid_size = 5, words = [CAT, DOG],
             placements = [WordPlacement DOG \<lparr>row = 2, col = 2\<rparr> DIAGONAL_UP_LEFT,
                           WordPlacement CAT \<lparr>row = 2, col = 3\<rparr> VERTICAL_UP],
             grid = [[''G'', ''A'', ''A'', ''T'', ''A''],
                     [''A'', ''O'', ''A'', ''A'', ''A''],
                     [''A'', ''A'', ''D'', ''C'', ''A''],
                     [''A'', ''A'', ''A'', ''A'', ''A''],
                     [''A'', ''A'', ''A'', ''A'', ''A'']]\<rparr>"
proof -
  let ?p = "\<lparr>grid_size = 5, words = [CAT, DOG],
             placements = [WordPlacement DOG \<lparr>row = 2, col = 2\<rparr> DIAGONAL_UP_LEFT,
                           WordPlacement CAT \<lparr>row = 2, col = 3\<rparr> VERTICAL_UP],
             grid = [[''G'', ''A'', ''A'', ''T'', ''A''],
                     [''A'', ''O'', ''A'', ''A'', ''A''],
                     [''A'', ''A'', ''D'', ''C'', ''A''],
                     [''A'', ''A'', ''A'', ''A'', ''A''],
                     [''A'', ''A'', ''A'', ''A'', ''A'']]\<rparr>"
  have run: "generate default_max_attempts (Puzzle 5 [CAT, DOG]) tape_diagonal_first
             = Inr (True, ?p, [], 1)"
    by code_simp
  have g15: "has_sufficient_diagonal_coverage \<lparr>total_words = 15, counts = (\<lambda>_. 3)\<rparr>"
    using diagonal_coverage_law [of "\<lparr>total_words = 15, counts = (\<lambda>_. 3)\<rparr>"]
    by simp
  have g16: "\<not> has_sufficient_diagonal_coverage \<lparr>total_words = 16, counts = (\<lambda>_. 3)\<rparr>"
    using diagonal_coverage_law [of "\<lparr>total_words = 16, counts = (\<lambda>_. 3)\<rparr>"]
    by simp
  have c: "\<lceil>0.2 * real (length [CAT, DOG])\<rceil> = 1"
    by simp
  have "length (words (Puzzle 5 [CAT, DOG])) < 2 ^ 53"
    by (simp add: Puzzle_def)
  with diagonal_coverage_law [of _ default_max_attempts "Puzzle 5 [CAT, DOG]"
         tape_diagonal_first ?p "[]" 1] run
  have "\<lceil>0.2 * real (length (words (Puzzle 5 [CAT, DOG])))\<rceil> \<le> int (diagonal_placements ?p)"
    by blast
  then have d: "1 \<le> diagonal_placements ?p"
    by (simp add: Puzzle_def)
  from g15 g16 run c d show ?thesis
    by blast
qed

end
